theory Spec2Isabelle
  imports Main "HOL-Library.Word"
begin

unbundle bit_operations_syntax

section \<open>Byte strings (cstring.c)\<close>

text \<open>
  A \<open>String\<close> of the C code is a length-tracked byte buffer with a cached count of UTF-8
  characters. The model keeps the bytes (\<open>byte_len\<close> is their number) and the cached
  \<open>char_len\<close>; the capacity and the allocation tag only serve memory management and are
  left out. The buffer always carries a NUL byte after its last byte, so reading the
  \<open>data\<close> pointer as a C string yields the bytes before the first NUL (\<open>c_str\<close>).

  \<open>size_t\<close> is modelled by \<open>nat\<close>. Positions inside a buffer stay below \<open>2 ^ 64\<close>, so
  arithmetic on them does not wrap; where the not-found value \<open>SIZE_MAX\<close> enters an
  addition or subtraction, the wrap-around is written out (\<open>size_add\<close>, \<open>size_sub\<close>).
\<close>

record String =
  data :: string
  char_len :: nat

definition SIZE_MAX :: nat where
  "SIZE_MAX = 2 ^ 64 - 1"

definition size_add :: "nat \<Rightarrow> nat \<Rightarrow> nat" where
  "size_add a b = (a + b) mod 2 ^ 64"

definition size_sub :: "nat \<Rightarrow> nat \<Rightarrow> nat" where
  "size_sub a b = (a + 2 ^ 64 - b mod 2 ^ 64) mod 2 ^ 64"

definition NUL :: char where
  "NUL = CHR 0x00"

definition c_str :: "string \<Rightarrow> string" where
  "c_str p = takeWhile (\<lambda>c. c \<noteq> NUL) p"

definition is_continuation :: "char \<Rightarrow> bool" where
  "is_continuation c \<longleftrightarrow> (of_char c :: 8 word) AND 0xC0 = 0x80"

definition string_utf8_char_len :: "string \<Rightarrow> nat" where
  "string_utf8_char_len str =
     (case str of
        [] \<Rightarrow> 0
      | c # _ \<Rightarrow>
          if c = NUL then 0
          else if (of_char c :: 8 word) AND 0x80 = 0 then 1
          else if (of_char c :: 8 word) AND 0xE0 = 0xC0 then 2
          else if (of_char c :: 8 word) AND 0xF0 = 0xE0 then 3
          else if (of_char c :: 8 word) AND 0xF8 = 0xF0 then 4
          else 1)"

function count_utf8_chars :: "string \<Rightarrow> nat" where
  "count_utf8_chars [] = 0"
| "count_utf8_chars (c # cs) =
     (if string_utf8_char_len (c # cs) = 0
        then (if is_continuation c then 0 else 1)
      else if length (c # cs) < string_utf8_char_len (c # cs)
        then (if is_continuation c then 0 else 1)
      else (if is_continuation c then 0 else 1)
           + count_utf8_chars (drop (string_utf8_char_len (c # cs)) (c # cs)))"
  by pat_completeness auto
termination
  by (relation "measure length") auto

declare count_utf8_chars.simps [simp del]

definition string_new_len :: "string \<Rightarrow> nat \<Rightarrow> String" where
  "string_new_len str len =
     \<lparr>data = take len str, char_len = count_utf8_chars (take len str)\<rparr>"

definition string_new_empty :: String where
  "string_new_empty = string_new_len [] 0"

definition string_new :: "string \<Rightarrow> String" where
  "string_new cstr = string_new_len (c_str cstr) (length (c_str cstr))"

definition string_length :: "String \<Rightarrow> nat" where
  "string_length str = char_len str"

definition string_byte_length :: "String \<Rightarrow> nat" where
  "string_byte_length str = length (data str)"

definition string_equals :: "String \<Rightarrow> String \<Rightarrow> bool" where
  "string_equals str1 str2 \<longleftrightarrow>
     (if length (data str1) \<noteq> length (data str2) then False
      else data str1 = data str2)"

definition string_equals_cstr :: "String \<Rightarrow> string \<Rightarrow> bool" where
  "string_equals_cstr str cstr \<longleftrightarrow>
     (if length (data str) \<noteq> length (c_str cstr) then False
      else take (length (c_str cstr)) (data str) = c_str cstr)"

definition string_append_cstr :: "String \<Rightarrow> string \<Rightarrow> String" where
  "string_append_cstr str cstr =
     (if c_str cstr = [] then str
      else \<lparr>data = data str @ c_str cstr,
            char_len = count_utf8_chars (data str @ c_str cstr)\<rparr>)"

definition string_append :: "String \<Rightarrow> String \<Rightarrow> String" where
  "string_append str other =
     (if length (data other) = 0 then str else string_append_cstr str (data other))"

definition string_append_bytes :: "String \<Rightarrow> string option \<Rightarrow> nat \<Rightarrow> String" where
  "string_append_bytes str bytes len =
     (case bytes of
        None \<Rightarrow> str
      | Some bs \<Rightarrow>
          if len = 0 then str
          else \<lparr>data = data str @ take len bs,
                char_len = count_utf8_chars (data str @ take len bs)\<rparr>)"

function char_index_scan :: "string \<Rightarrow> nat \<Rightarrow> nat \<Rightarrow> nat \<Rightarrow> nat" where
  "char_index_scan bytes char_index byte_index char_count =
     (if byte_index < length bytes \<and> char_count < char_index
      then char_index_scan bytes char_index (byte_index + 1)
             (if \<not> is_continuation (bytes ! byte_index) then char_count + 1 else char_count)
      else byte_index)"
  by pat_completeness auto
termination
  by (relation "measure (\<lambda>(bytes, char_index, byte_index, char_count). length bytes - byte_index)")
     auto

declare char_index_scan.simps [simp del]

function char_start_scan :: "string \<Rightarrow> nat \<Rightarrow> nat" where
  "char_start_scan bytes byte_index =
     (if byte_index < length bytes \<and> is_continuation (bytes ! byte_index)
      then char_start_scan bytes (byte_index + 1)
      else byte_index)"
  by pat_completeness auto
termination
  by (relation "measure (\<lambda>(bytes, byte_index). length bytes - byte_index)") auto

declare char_start_scan.simps [simp del]

definition string_char_index_to_byte :: "String \<Rightarrow> nat \<Rightarrow> nat" where
  "string_char_index_to_byte str char_index =
     (if char_len str \<le> char_index then length (data str)
      else char_start_scan (data str) (char_index_scan (data str) char_index 0 0))"

definition string_byte_index_to_char :: "String \<Rightarrow> nat \<Rightarrow> nat" where
  "string_byte_index_to_char str byte_index =
     (if length (data str) \<le> byte_index then char_len str
      else length (filter (\<lambda>c. \<not> is_continuation c) (take byte_index (data str))))"

function find_scan :: "string \<Rightarrow> string \<Rightarrow> nat \<Rightarrow> nat option" where
  "find_scan bytes substr i =
     (if i \<le> length bytes - length substr
      then (if take (length substr) (drop i bytes) = substr then Some i
            else find_scan bytes substr (i + 1))
      else None)"
  by pat_completeness auto
termination
  by (relation "measure (\<lambda>(bytes, substr, i). length bytes + 1 - i)") auto

declare find_scan.simps [simp del]

definition string_find_cstr :: "String \<Rightarrow> string \<Rightarrow> nat \<Rightarrow> nat" where
  "string_find_cstr str substr start_pos =
     (if c_str substr = [] then 0
      else if char_len str \<le> start_pos then SIZE_MAX
      else if length (data str) - string_char_index_to_byte str start_pos
                < length (c_str substr) then SIZE_MAX
      else (case find_scan (data str) (c_str substr)
                   (string_char_index_to_byte str start_pos) of
              Some i \<Rightarrow> string_byte_index_to_char str i
            | None \<Rightarrow> SIZE_MAX))"

definition string_substring :: "String \<Rightarrow> nat \<Rightarrow> nat \<Rightarrow> String" where
  "string_substring str start len =
     (if char_len str \<le> start then string_new_empty
      else string_new_len
             (drop (string_char_index_to_byte str start) (data str))
             (string_char_index_to_byte str (min (size_add start len) (char_len str))
                - string_char_index_to_byte str start))"

text \<open>
  \<open>string_substring\<close> hands \<open>string_new_len\<close> the length \<open>end_byte - start_byte\<close>, which
  the C code computes in \<open>size_t\<close>. When the end position lies before the start, which
  takes a sum \<open>start + length\<close> that wraps around, that difference wraps to a length just
  below \<open>2 ^ 64\<close> and the C call does not yield a string of the buffer: the copy is refused
  or runs out of the buffer. The subtraction of the model stops at 0 there and gives the
  empty string, which is not what the code does. The model stands for the code on the
  calls that satisfy \<open>substring_in_range\<close>, and only on them. \<open>string_fits\<close> says that a
  string is one the program can hold: its bytes fit the address space and its character
  count does not exceed their number.
\<close>

definition substring_in_range :: "String \<Rightarrow> nat \<Rightarrow> nat \<Rightarrow> bool" where
  "substring_in_range str start len \<longleftrightarrow>
     char_len str \<le> start
     \<or> string_char_index_to_byte str start
         \<le> string_char_index_to_byte str (min (size_add start len) (char_len str))"

definition string_fits :: "String \<Rightarrow> bool" where
  "string_fits str \<longleftrightarrow> char_len str \<le> length (data str) \<and> length (data str) < 2 ^ 64"

definition string_begins_with :: "String \<Rightarrow> String \<Rightarrow> bool" where
  "string_begins_with str prefix_str \<longleftrightarrow>
     (if char_len str < string_length prefix_str then False
      else take (string_length prefix_str) (data str)
             = take (string_length prefix_str) (data prefix_str))"

subsection \<open>Facts about the search, used for the termination of the parser's loop\<close>

lemma char_index_scan_bounds:
  "byte_index \<le> length bytes \<Longrightarrow>
     byte_index \<le> char_index_scan bytes ci byte_index cc
     \<and> char_index_scan bytes ci byte_index cc \<le> length bytes"
proof (induction bytes ci byte_index cc rule: char_index_scan.induct)
  case (1 bytes char_index byte_index char_count)
  show ?case
  proof (cases "byte_index < length bytes \<and> char_count < char_index")
    case True
    then have step: "char_index_scan bytes char_index byte_index char_count
        = char_index_scan bytes char_index (byte_index + 1)
             (if \<not> is_continuation (bytes ! byte_index) then char_count + 1 else char_count)"
      by (subst char_index_scan.simps) simp
    from True have "byte_index + 1 \<le> length bytes" by simp
    from 1(1) [OF True this] show ?thesis unfolding step by simp
  next
    case False
    then have "char_index_scan bytes char_index byte_index char_count = byte_index"
      by (subst char_index_scan.simps) (simp only: if_False)
    with 1(2) show ?thesis by simp
  qed
qed

lemma char_index_scan_count:
  "cc = length (filter (\<lambda>c. \<not> is_continuation c) (take byte_index bytes)) \<Longrightarrow>
   cc \<le> ci \<Longrightarrow> byte_index \<le> length bytes \<Longrightarrow>
     char_index_scan bytes ci byte_index cc = length bytes
     \<or> length (filter (\<lambda>c. \<not> is_continuation c)
          (take (char_index_scan bytes ci byte_index cc) bytes)) = ci"
proof (induction bytes ci byte_index cc rule: char_index_scan.induct)
  case (1 bytes char_index byte_index char_count)
  show ?case
  proof (cases "byte_index < length bytes \<and> char_count < char_index")
    case True
    then have step: "char_index_scan bytes char_index byte_index char_count
        = char_index_scan bytes char_index (byte_index + 1)
             (if \<not> is_continuation (bytes ! byte_index) then char_count + 1 else char_count)"
      by (subst char_index_scan.simps) simp
    have a: "(if \<not> is_continuation (bytes ! byte_index) then char_count + 1 else char_count)
        = length (filter (\<lambda>c. \<not> is_continuation c) (take (byte_index + 1) bytes))"
      using True 1(2) by (simp add: take_Suc_conv_app_nth)
    have b: "(if \<not> is_continuation (bytes ! byte_index) then char_count + 1 else char_count)
        \<le> char_index"
      using True by simp
    have c: "byte_index + 1 \<le> length bytes" using True by simp
    from 1(1) [OF True a b c] show ?thesis unfolding step .
  next
    case False
    then have stop: "char_index_scan bytes char_index byte_index char_count = byte_index"
      by (subst char_index_scan.simps) (simp only: if_False)
    from False 1(2,3,4) show ?thesis unfolding stop by auto
  qed
qed

lemma char_start_scan_bounds:
  "byte_index \<le> length bytes \<Longrightarrow>
     byte_index \<le> char_start_scan bytes byte_index
     \<and> char_start_scan bytes byte_index \<le> length bytes"
proof (induction bytes byte_index rule: char_start_scan.induct)
  case (1 bytes byte_index)
  show ?case
  proof (cases "byte_index < length bytes \<and> is_continuation (bytes ! byte_index)")
    case True
    then have step: "char_start_scan bytes byte_index = char_start_scan bytes (byte_index + 1)"
      by (subst char_start_scan.simps) simp
    from True have "byte_index + 1 \<le> length bytes" by simp
    from 1(1) [OF True this] show ?thesis unfolding step by simp
  next
    case False
    then have "char_start_scan bytes byte_index = byte_index"
      by (subst char_start_scan.simps) (simp only: if_False)
    with 1(2) show ?thesis by simp
  qed
qed

lemma find_scan_Some:
  "find_scan bytes substr i = Some j \<Longrightarrow>
     i \<le> j \<and> j \<le> length bytes - length substr \<and> take (length substr) (drop j bytes) = substr"
proof (induction bytes substr i rule: find_scan.induct)
  case (1 bytes substr i)
  show ?case
  proof (cases "i \<le> length bytes - length substr")
    case True
    note le = this
    show ?thesis
    proof (cases "take (length substr) (drop i bytes) = substr")
      case True
      with le 1(2) show ?thesis by (subst (asm) find_scan.simps) simp
    next
      case False
      with le 1(2) have "find_scan bytes substr (i + 1) = Some j"
        by (subst (asm) find_scan.simps) simp
      from 1(1) [OF le False this] show ?thesis by simp
    qed
  next
    case False
    with 1(2) show ?thesis by (subst (asm) find_scan.simps) simp
  qed
qed

lemma count_take_mono:
  "i \<le> j \<Longrightarrow> length (filter P (take i xs)) \<le> length (filter P (take j xs))"
proof -
  assume "i \<le> j"
  then have "take j xs = take i xs @ take (j - i) (drop i xs)"
    by (metis le_add_diff_inverse take_add)
  then show ?thesis by simp
qed

lemma string_find_cstr_found:
  assumes ne: "c_str substr \<noteq> []" and found: "string_find_cstr str substr start \<noteq> SIZE_MAX"
  shows "start \<le> string_find_cstr str substr start \<and> start < char_len str"
proof -
  let ?b1 = "char_index_scan (data str) start 0 0"
  let ?b = "char_start_scan (data str) ?b1"
  let ?nc = "\<lambda>k. length (filter (\<lambda>c. \<not> is_continuation c) (take k (data str)))"
  have lt: "start < char_len str"
  proof (rule ccontr)
    assume "\<not> start < char_len str"
    then have "string_find_cstr str substr start = SIZE_MAX"
      using ne by (simp add: string_find_cstr_def)
    with found show False by simp
  qed
  then have b: "string_char_index_to_byte str start = ?b"
    by (simp add: string_char_index_to_byte_def)
  have room: "length (c_str substr) \<le> length (data str) - ?b"
  proof (rule ccontr)
    assume "\<not> length (c_str substr) \<le> length (data str) - ?b"
    then have "string_find_cstr str substr start = SIZE_MAX"
      using ne lt by (simp add: string_find_cstr_def b)
    with found show False by simp
  qed
  have "\<exists>i. find_scan (data str) (c_str substr) ?b = Some i"
  proof (rule ccontr)
    assume "\<not> (\<exists>i. find_scan (data str) (c_str substr) ?b = Some i)"
    then have "find_scan (data str) (c_str substr) ?b = None" by simp
    then have "string_find_cstr str substr start = SIZE_MAX"
      using ne lt room by (simp add: string_find_cstr_def b)
    with found show False by simp
  qed
  then obtain i where fs: "find_scan (data str) (c_str substr) ?b = Some i" ..
  then have e: "string_find_cstr str substr start = string_byte_index_to_char str i"
    using ne lt room by (simp add: string_find_cstr_def b)
  from find_scan_Some [OF fs] have i: "?b \<le> i" "i \<le> length (data str) - length (c_str substr)"
    by simp_all
  from ne have "0 < length (c_str substr)" by simp
  with room i have ilt: "i < length (data str)" by linarith
  have b1: "?b1 \<le> length (data str)" using char_index_scan_bounds [of 0 "data str"] by simp
  have "?b1 \<le> ?b" using char_start_scan_bounds [OF b1] by simp
  with i have b1i: "?b1 \<le> i" by simp
  with ilt have "?b1 \<noteq> length (data str)" by simp
  with char_index_scan_count [of 0 0 "data str" start] have "?nc ?b1 = start" by simp
  moreover have "?nc ?b1 \<le> ?nc i" by (rule count_take_mono [OF b1i])
  moreover have "string_find_cstr str substr start = ?nc i"
    using e ilt by (simp add: string_byte_index_to_char_def)
  ultimately show ?thesis using lt by simp
qed

section \<open>Message model (http.h, http.c)\<close>

datatype Method =
    HTTP_UNKNOWN | HTTP_GET | HTTP_POST | HTTP_PUT | HTTP_DELETE
  | HTTP_PATCH | HTTP_OPTIONS | HTTP_HEAD

text \<open>The enumerators' integer values, which the route masks are built from.\<close>

fun method_value :: "Method \<Rightarrow> 32 word" where
  "method_value HTTP_UNKNOWN = 0"
| "method_value HTTP_GET = 1"
| "method_value HTTP_POST = 2"
| "method_value HTTP_PUT = 4"
| "method_value HTTP_DELETE = 8"
| "method_value HTTP_PATCH = 16"
| "method_value HTTP_OPTIONS = 32"
| "method_value HTTP_HEAD = 64"

type_synonym Methods = "32 word"

definition IN_METHODS :: "Methods \<Rightarrow> Method \<Rightarrow> bool" where
  "IN_METHODS methods m \<longleftrightarrow> (methods AND method_value m) = method_value m"

datatype HttpVersion = HTTP_1_0 | HTTP_1_1 | HTTP_2_0 | HTTP_UNKNOWN_VERSION

datatype Encoding = COMPRESSION_NONE | COMPRESSION_GZIP

record RequestLine =
  http_method :: Method
  target :: String
  version :: HttpVersion

record Header =
  header_key :: String
  header_value :: String

text \<open>
  The header arrays are instances of the growable array of array.h; the model keeps their
  elements in order as a list. \<open>status\<close> is a \<open>char*\<close> that starts out NULL (\<open>None\<close>);
  \<open>raw_body\<close> is the buffer of \<open>raw_body_len\<close> compressed bytes, NULL until a layer
  sets it.
\<close>

record HttpRequest =
  request_line :: RequestLine
  req_headers :: "Header list"
  req_body :: String

record HttpResponse =
  status :: "string option"
  res_headers :: "Header list"
  encoding :: Encoding
  res_body :: String
  raw_body :: "string option"
  raw_body_len :: nat

definition CRLF :: string where
  "CRLF = [CHR 0x0D, CHR 0x0A]"

definition http_request_new :: HttpRequest where
  "http_request_new =
     \<lparr>request_line = \<lparr>http_method = HTTP_UNKNOWN, target = string_new_empty,
                       version = HTTP_UNKNOWN_VERSION\<rparr>,
      req_headers = [],
      req_body = string_new_empty\<rparr>"

definition http_response_new :: HttpResponse where
  "http_response_new =
     \<lparr>status = None, res_headers = [], encoding = COMPRESSION_NONE,
      res_body = string_new_empty, raw_body = None, raw_body_len = 0\<rparr>"

subsection \<open>The parser\<close>

definition parse_method :: "String \<Rightarrow> Method \<Rightarrow> Method" where
  "parse_method method_str old =
     (if string_equals_cstr method_str ''GET'' then HTTP_GET
      else if string_equals_cstr method_str ''POST'' then HTTP_POST
      else if string_equals_cstr method_str ''PUT'' then HTTP_PUT
      else if string_equals_cstr method_str ''DELETE'' then HTTP_DELETE
      else if string_equals_cstr method_str ''PATCH'' then HTTP_PATCH
      else if string_equals_cstr method_str ''OPTIONS'' then HTTP_OPTIONS
      else if string_equals_cstr method_str ''HEAD'' then HTTP_HEAD
      else old)"

definition parse_version :: "String \<Rightarrow> HttpVersion \<Rightarrow> HttpVersion" where
  "parse_version version_str old =
     (if string_equals_cstr version_str ''HTTP/1.1'' then HTTP_1_1
      else if string_equals_cstr version_str ''HTTP/2.0'' then HTTP_2_0
      else old)"

text \<open>
  The body of the parser's loop for one non-empty line: while the method is still
  \<open>HTTP_UNKNOWN\<close> the line is read as a request line, afterwards as a header.
\<close>

definition parse_line :: "HttpRequest \<Rightarrow> String \<Rightarrow> HttpRequest" where
  "parse_line request line =
     (if http_method (request_line request) = HTTP_UNKNOWN then
        (let method_str = string_substring line 0 (string_find_cstr line '' '' 0);
             target_start = size_add (string_find_cstr line '' '' 0) 1;
             target_end = string_find_cstr line '' '' target_start;
             version_start = size_add target_end 1;
             version_str = string_substring line version_start
                             (size_sub (string_length line) version_start)
         in request\<lparr>request_line :=
              \<lparr>http_method = parse_method method_str (http_method (request_line request)),
               target = string_substring line target_start (size_sub target_end target_start),
               version = parse_version version_str (version (request_line request))\<rparr>\<rparr>)
      else
        (let colon_pos = string_find_cstr line '': '' 0
         in if colon_pos \<noteq> SIZE_MAX then
              request\<lparr>req_headers := req_headers request @
                [\<lparr>header_key = string_substring line 0 colon_pos,
                  header_value = string_substring line (colon_pos + 2)
                     (size_sub (size_sub (string_length line) colon_pos) 2)\<rparr>]\<rparr>
            else request))"

text \<open>
  The loop over the CRLF-terminated lines: it returns the request as filled in so far and
  the position \<open>start\<close> behind the last line it consumed.
\<close>

function parse_loop :: "HttpRequest \<Rightarrow> String \<Rightarrow> nat \<Rightarrow> HttpRequest \<times> nat" where
  "parse_loop request raw start =
     (if string_find_cstr raw CRLF start \<noteq> SIZE_MAX then
        (if string_length
              (string_substring raw start (string_find_cstr raw CRLF start - start)) = 0
         then (request, string_find_cstr raw CRLF start + 2)
         else parse_loop
                (parse_line request
                   (string_substring raw start (string_find_cstr raw CRLF start - start)))
                raw (string_find_cstr raw CRLF start + 2))
      else (request, start))"
  by pat_completeness auto
termination
proof (relation "measure (\<lambda>(request, raw, start). char_len raw - start)")
  show "wf (measure (\<lambda>(request, raw, start). char_len raw - start))" by simp
next
  fix request :: HttpRequest and raw :: String and start :: nat
  assume found: "string_find_cstr raw CRLF start \<noteq> SIZE_MAX"
  have "c_str CRLF \<noteq> []" by (simp add: c_str_def CRLF_def NUL_def)
  from string_find_cstr_found [OF this found]
  show "((parse_line request
            (string_substring raw start (string_find_cstr raw CRLF start - start)),
          raw, string_find_cstr raw CRLF start + 2), request, raw, start)
        \<in> measure (\<lambda>(request, raw, start). char_len raw - start)"
    by simp arith
qed

declare parse_loop.simps [simp del]

text \<open>
  \<open>http_request_parse\<close> returns \<open>false\<close> only for a missing request or buffer. The
  subtraction \<open>end - start\<close> in the loop cannot wrap: a hit lies at or behind the position
  the search started from (\<open>string_find_cstr_found\<close>).
\<close>

definition http_request_parse ::
  "HttpRequest option \<Rightarrow> String option \<Rightarrow> bool \<times> HttpRequest option" where
  "http_request_parse request raw =
     (case (request, raw) of
        (Some rq, Some rw) \<Rightarrow>
          (case parse_loop rq rw 0 of
             (rq', start) \<Rightarrow>
               (True,
                Some (if start < string_length rw
                      then rq'\<lparr>req_body := string_substring rw start (string_length rw - start)\<rparr>
                      else rq')))
      | _ \<Rightarrow> (False, request))"

definition http_request_get_header :: "HttpRequest \<Rightarrow> string \<Rightarrow> Header option" where
  "http_request_get_header request k =
     find (\<lambda>header. string_equals_cstr (header_key header) k) (req_headers request)"

subsection \<open>The serializer\<close>

text \<open>
  \<open>response_builder\<close> is the \<open>builder\<close> string of \<open>http_response_send\<close> at the point
  where it is handed to \<open>send\<close>. A NULL status makes \<open>string_append_cstr\<close> return at once.
\<close>

definition append_header :: "String \<Rightarrow> Header \<Rightarrow> String" where
  "append_header builder header =
     string_append_cstr
       (string_append_cstr
          (string_append_cstr
             (string_append_cstr builder (data (header_key header)))
             '': '')
          (data (header_value header)))
       CRLF"

definition response_builder :: "HttpResponse \<Rightarrow> String" where
  "response_builder response =
     (let b0 = (case status response of
                  None \<Rightarrow> string_new_empty
                | Some s \<Rightarrow> string_append_cstr string_new_empty s);
          b1 = string_append_cstr b0 CRLF;
          b2 = foldl append_header b1 (res_headers response);
          b3 = string_append_cstr b2 CRLF
      in (case encoding response of
            COMPRESSION_NONE \<Rightarrow> string_append b3 (res_body response)
          | COMPRESSION_GZIP \<Rightarrow>
              string_append_bytes b3 (raw_body response) (raw_body_len response)))"

text \<open>
  \<open>send_ok\<close> is the outcome of the \<open>send\<close> system call. The result is the function's
  return value and the bytes passed to \<open>send\<close>, if it was reached.
\<close>

definition http_response_send ::
  "HttpResponse option \<Rightarrow> int \<Rightarrow> bool \<Rightarrow> bool \<times> string option" where
  "http_response_send response client_fd send_ok =
     (case response of
        None \<Rightarrow> (False, None)
      | Some r \<Rightarrow>
          if client_fd < 0 then (False, None)
          else (send_ok, Some (data (response_builder r))))"

section \<open>Middleware pipeline (layers.h, layers.c)\<close>

datatype LayerLC =
    LAYER_INIT | LAYER_PRE_ROUTE | LAYER_POST_ROUTE
  | LAYER_PRE_RESPONSE | LAYER_POST_RESPONSE | LAYER_CLEANUP

text \<open>
  A layer function receives pointers to the request and the response and may write
  through both; the model returns the two objects together with the boolean result.
\<close>

type_synonym LayerFn = "HttpRequest \<Rightarrow> HttpResponse \<Rightarrow> bool \<times> HttpRequest \<times> HttpResponse"

record Layer =
  layer_name :: string
  layer_when :: LayerLC
  layer_fn :: "LayerFn option"
  can_fail :: bool

definition layer_apply ::
  "Layer \<Rightarrow> HttpRequest \<Rightarrow> HttpResponse \<Rightarrow> bool \<times> HttpRequest \<times> HttpResponse" where
  "layer_apply layer request response =
     (case layer_fn layer of
        None \<Rightarrow> (False, request, response)
      | Some f \<Rightarrow> f request response)"

fun layers_loop ::
  "Layer list \<Rightarrow> LayerLC \<Rightarrow> HttpRequest \<Rightarrow> HttpResponse
     \<Rightarrow> bool \<times> HttpRequest \<times> HttpResponse" where
  "layers_loop [] stage request response = (True, request, response)"
| "layers_loop (layer # rest) stage request response =
     (if layer_when layer \<noteq> stage then layers_loop rest stage request response
      else if \<not> fst (layer_apply layer request response) then
        (if can_fail layer
         then layers_loop rest stage
                (fst (snd (layer_apply layer request response)))
                (snd (snd (layer_apply layer request response)))
         else (False, snd (layer_apply layer request response)))
      else layers_loop rest stage
             (fst (snd (layer_apply layer request response)))
             (snd (snd (layer_apply layer request response))))"

definition layers_apply ::
  "Layer list option \<Rightarrow> LayerLC \<Rightarrow> HttpRequest option \<Rightarrow> HttpResponse option
     \<Rightarrow> bool \<times> HttpRequest option \<times> HttpResponse option" where
  "layers_apply ctx stage request response =
     (case (ctx, request, response) of
        (Some layers, Some rq, Some rs) \<Rightarrow>
          (fst (layers_loop layers stage rq rs),
           Some (fst (snd (layers_loop layers stage rq rs))),
           Some (snd (snd (layers_loop layers stage rq rs))))
      | _ \<Rightarrow> (False, request, response))"

definition layers_add ::
  "Layer list \<Rightarrow> LayerLC \<Rightarrow> string \<Rightarrow> LayerFn \<Rightarrow> bool \<Rightarrow> Layer list" where
  "layers_add ctx w n f cf =
     ctx @ [\<lparr>layer_name = c_str n, layer_when = w, layer_fn = Some f, can_fail = cf\<rparr>]"

section \<open>Router (router.h, router.c)\<close>

type_synonym RouteHandler = "HttpRequest \<Rightarrow> HttpResponse \<Rightarrow> HttpRequest \<times> HttpResponse"

record Route =
  path :: String
  methods :: Methods
  handler :: RouteHandler
  exact_only :: bool

definition HTTP_200 :: string where "HTTP_200 = ''HTTP/1.1 200 OK''"
definition HTTP_404 :: string where "HTTP_404 = ''HTTP/1.1 404 Not Found''"

definition router_add_route ::
  "Route list \<Rightarrow> string \<Rightarrow> Methods \<Rightarrow> RouteHandler \<Rightarrow> bool \<Rightarrow> Route list" where
  "router_add_route router p ms h ex =
     router @ [\<lparr>path = string_new p, methods = ms, handler = h, exact_only = ex\<rparr>]"

fun route_loop ::
  "Route list \<Rightarrow> HttpRequest \<Rightarrow> HttpResponse \<Rightarrow> bool \<times> HttpRequest \<times> HttpResponse" where
  "route_loop [] request response =
     (False, request, response\<lparr>status := Some ''HTTP/1.1 404 Not Found''\<rparr>)"
| "route_loop (route # rest) request response =
     (if \<not> IN_METHODS (methods route) (http_method (request_line request))
        then route_loop rest request response
      else if exact_only route
              \<and> string_equals (path route) (target (request_line request))
        then (True, handler route request response)
      else if \<not> exact_only route
              \<and> string_begins_with (target (request_line request)) (path route)
        then (True, handler route request response)
      else route_loop rest request response)"

definition router_route ::
  "Route list option \<Rightarrow> HttpRequest option \<Rightarrow> HttpResponse option
     \<Rightarrow> bool \<times> HttpRequest option \<times> HttpResponse option" where
  "router_route router request response =
     (case (router, request, response) of
        (Some routes, Some rq, Some rs) \<Rightarrow>
          (fst (route_loop routes rq rs),
           Some (fst (snd (route_loop routes rq rs))),
           Some (snd (snd (route_loop routes rq rs))))
      | _ \<Rightarrow> (False, request, response))"

subsection \<open>The router of the specification\<close>

text \<open>
  The specification describes the router in these words: a route matches if the request's
  method is a member of the route's method mask and, for an exact route, the paths are
  byte-for-byte equal or, for any other route, the request path starts with the route's
  path; the first route that matches, in registration order, has its handler invoked and
  the result is true; if no route matches, the response status is set to
  \<open>404 Not Found\<close> and the result is false. The definitions below follow these words, not
  the code, and the code is compared with them. The members of a mask are the verbs whose
  bit is set in it; \<open>HTTP_UNKNOWN\<close> has the value 0, no bit stands for it, and it is a member
  of no mask.
\<close>

definition mask_members :: "Methods \<Rightarrow> Method list" where
  "mask_members ms =
     filter (\<lambda>m. (ms AND method_value m) \<noteq> 0)
       [HTTP_GET, HTTP_POST, HTTP_PUT, HTTP_DELETE, HTTP_PATCH, HTTP_OPTIONS, HTTP_HEAD]"

definition spec_route_matches :: "Route \<Rightarrow> HttpRequest \<Rightarrow> bool" where
  "spec_route_matches route request \<longleftrightarrow>
     http_method (request_line request) \<in> set (mask_members (methods route))
     \<and> (if exact_only route
        then data (path route) = data (target (request_line request))
        else take (length (data (path route))) (data (target (request_line request)))
               = data (path route))"

definition spec_route ::
  "Route list \<Rightarrow> HttpRequest \<Rightarrow> HttpResponse \<Rightarrow> bool \<times> HttpRequest \<times> HttpResponse" where
  "spec_route routes request response =
     (case find (\<lambda>route. spec_route_matches route request) routes of
        Some route \<Rightarrow> (True, handler route request response)
      | None \<Rightarrow> (False, request, response\<lparr>status := Some HTTP_404\<rparr>))"

text \<open>
  A byte that is a whole character of its own (not NUL, high bit clear), and a path made of
  such bytes only, with its cached character count in step.
\<close>

definition single_byte :: "char \<Rightarrow> bool" where
  "single_byte c \<longleftrightarrow> c \<noteq> NUL \<and> (of_char c :: 8 word) AND 0x80 = 0"

definition single_byte_path :: "String \<Rightarrow> bool" where
  "single_byte_path p \<longleftrightarrow>
     char_len p = length (data p) \<and> list_all single_byte (data p)"

section \<open>Built-in routes and layers (routes.c, builtin.c, server.c)\<close>

definition index_route :: RouteHandler where
  "index_route request response = (request, response\<lparr>status := Some HTTP_200\<rparr>)"

definition echo_route :: RouteHandler where
  "echo_route request response =
     (request,
      response\<lparr>status := Some HTTP_200,
               res_headers := res_headers response @
                 [\<lparr>header_key = string_new ''Content-Type'',
                   header_value = string_new ''text/plain''\<rparr>],
               res_body := string_substring (target (request_line request)) 6
                 (size_sub (string_length (target (request_line request))) 6)\<rparr>)"

definition user_agent_route :: RouteHandler where
  "user_agent_route request response =
     (request,
      response\<lparr>status := Some HTTP_200,
               res_body :=
                 (case find (\<lambda>header. string_equals_cstr (header_key header) ''User-Agent'')
                         (req_headers request) of
                    Some header \<Rightarrow>
                      string_substring (header_value header) 0
                        (string_length (header_value header))
                  | None \<Rightarrow> res_body response),
               res_headers := res_headers response @
                 [\<lparr>header_key = string_new ''Content-Type'',
                   header_value = string_new ''text/plain''\<rparr>]\<rparr>)"

subsection \<open>Splitting and trimming (cstring.c), used by the content-encoding layer\<close>

text \<open>
  \<open>isplit_scan\<close> is the loop of \<open>string_isplit\<close>; its last argument is \<open>index - count\<close>,
  the number of delimiters still to be passed, so that \<open>count == index\<close> reads \<open>0\<close>.
\<close>

fun isplit_scan :: "String \<Rightarrow> string \<Rightarrow> nat \<Rightarrow> nat \<Rightarrow> String option" where
  "isplit_scan str delim start 0 =
     (if string_find_cstr str delim start \<noteq> SIZE_MAX
      then Some (string_substring str start
                   (size_sub (string_find_cstr str delim start) start))
      else Some (string_substring str start (size_sub (length (data str)) start)))"
| "isplit_scan str delim start (Suc n) =
     (if string_find_cstr str delim start \<noteq> SIZE_MAX
      then isplit_scan str delim
             (string_find_cstr str delim start + length (c_str delim)) n
      else None)"

definition string_isplit :: "String option \<Rightarrow> string \<Rightarrow> nat \<Rightarrow> String option" where
  "string_isplit str delim index =
     (case str of None \<Rightarrow> None | Some s \<Rightarrow> isplit_scan s delim 0 index)"

text \<open>\<open>strchr\<close> also finds the terminating NUL of the set of characters.\<close>

definition in_chars :: "string \<Rightarrow> char \<Rightarrow> bool" where
  "in_chars chars c \<longleftrightarrow> c = NUL \<or> c \<in> set (c_str chars)"

definition string_trim :: "String option \<Rightarrow> string \<Rightarrow> String option" where
  "string_trim str chars_to_trim =
     (case str of
        None \<Rightarrow> None
      | Some s \<Rightarrow>
          Some (string_substring s
                  (length (takeWhile (in_chars chars_to_trim) (data s)))
                  (length (data s)
                     - length (takeWhile (in_chars chars_to_trim)
                         (rev (drop (length (takeWhile (in_chars chars_to_trim) (data s)))
                            (data s))))
                     - length (takeWhile (in_chars chars_to_trim) (data s)))))"

lemma isplit_scan_exhausted:
  "c_str delim \<noteq> [] \<Longrightarrow> char_len str - start \<le> n
     \<Longrightarrow> isplit_scan str delim start (Suc n) = None"
proof (induction n arbitrary: start)
  case 0
  then have "char_len str \<le> start" by simp
  with 0(1) have "string_find_cstr str delim start = SIZE_MAX"
    by (simp add: string_find_cstr_def)
  then show ?case by simp
next
  case (Suc n)
  show ?case
  proof (cases "string_find_cstr str delim start = SIZE_MAX")
    case True
    then show ?thesis by simp
  next
    case False
    from string_find_cstr_found [OF Suc.prems(1) False]
    have "start \<le> string_find_cstr str delim start" and "start < char_len str" by simp_all
    moreover from Suc.prems(1) have "0 < length (c_str delim)" by simp
    ultimately have
      "char_len str - (string_find_cstr str delim start + length (c_str delim)) \<le> n"
      using Suc.prems(2) by linarith
    from Suc.IH [OF Suc.prems(1) this] False show ?thesis by simp
  qed
qed

text \<open>
  The \<open>do \<dots> while\<close> loop of the content-encoding layer: the first piece of the
  comma-separated header value that trims to \<open>gzip\<close>, or NULL once the pieces are used up.
\<close>

function find_encoding :: "String \<Rightarrow> nat \<Rightarrow> String option" where
  "find_encoding v index =
     (if \<not> (case string_trim (string_isplit (Some v) '','' index) '' '' of
               None \<Rightarrow> False
             | Some e \<Rightarrow> string_equals_cstr e ''gzip'')
         \<and> string_trim (string_isplit (Some v) '','' index) '' '' \<noteq> None
      then find_encoding v (index + 1)
      else string_trim (string_isplit (Some v) '','' index) '' '')"
  by pat_completeness auto
termination
proof (relation "measure (\<lambda>(v, index). char_len v + 1 - index)")
  show "wf (measure (\<lambda>(v, index). char_len v + 1 - index))" by simp
next
  fix v :: String and index :: nat
  assume a: "\<not> (case string_trim (string_isplit (Some v) '','' index) '' '' of
               None \<Rightarrow> False
             | Some e \<Rightarrow> string_equals_cstr e ''gzip'')
         \<and> string_trim (string_isplit (Some v) '','' index) '' '' \<noteq> None"
  have ne: "c_str '','' \<noteq> []" by (simp add: c_str_def NUL_def)
  have "index \<le> char_len v"
  proof (rule ccontr)
    assume "\<not> index \<le> char_len v"
    then obtain n where n: "index = Suc n" and "char_len v - 0 \<le> n"
      by (cases index) simp_all
    from isplit_scan_exhausted [OF ne this(2)] n
    have "string_isplit (Some v) '','' index = None" by (simp add: string_isplit_def)
    then have "string_trim (string_isplit (Some v) '','' index) '' '' = None"
      by (simp add: string_trim_def)
    with a show False by simp
  qed
  then show "((v, index + 1), v, index) \<in> measure (\<lambda>(v, index). char_len v + 1 - index)"
    by simp
qed

declare find_encoding.simps [simp del]

subsection \<open>Layers\<close>

text \<open>\<open>snprintf\<close> with \<open>%zu\<close>: the decimal digits of a size.\<close>

function decimal :: "nat \<Rightarrow> string" where
  "decimal n =
     (if n < 10 then [''0123456789'' ! n]
      else decimal (n div 10) @ [''0123456789'' ! (n mod 10)])"
  by pat_completeness auto
termination
  by (relation "measure id") auto

declare decimal.simps [simp del]

text \<open>
  The logging layers and the memory-usage layer only print; they leave the request and
  the response as they are and return true.
\<close>

definition logging_layer_preroute_verbose :: LayerFn where
  "logging_layer_preroute_verbose request response = (True, request, response)"

definition logging_layer_postroute_verbose :: LayerFn where
  "logging_layer_postroute_verbose request response = (True, request, response)"

definition logging_layer_preroute_basic :: LayerFn where
  "logging_layer_preroute_basic request response = (True, request, response)"

definition logging_layer_postroute_basic :: LayerFn where
  "logging_layer_postroute_basic request response = (True, request, response)"

definition request_memory_usage_layer :: LayerFn where
  "request_memory_usage_layer request response = (True, request, response)"

text \<open>
  The compressor of utils.c wraps zlib; the layer takes it as a parameter \<open>gzip_string\<close>
  that yields the compressed bytes, or \<open>None\<close> where the C function returns 0.
\<close>

definition content_encoding_layer :: "(String \<Rightarrow> string option) \<Rightarrow> LayerFn" where
  "content_encoding_layer gzip_string request response =
     (case http_request_get_header request ''Accept-Encoding'' of
        None \<Rightarrow> (False, request, response)
      | Some header \<Rightarrow>
          (case find_encoding (header_value header) 0 of
             None \<Rightarrow> (False, request, response)
           | Some enc \<Rightarrow>
               (case gzip_string (res_body response) of
                  None \<Rightarrow>
                    (False, request,
                     response\<lparr>res_headers := res_headers response @
                                [\<lparr>header_key = string_new ''Content-Encoding'',
                                  header_value = enc\<rparr>],
                              encoding := COMPRESSION_GZIP\<rparr>)
                | Some out \<Rightarrow>
                    if length out = 0 then
                      (False, request,
                       response\<lparr>res_headers := res_headers response @
                                  [\<lparr>header_key = string_new ''Content-Encoding'',
                                    header_value = enc\<rparr>],
                                encoding := COMPRESSION_GZIP\<rparr>)
                    else
                      (True, request,
                       response\<lparr>res_headers := res_headers response @
                                  [\<lparr>header_key = string_new ''Content-Encoding'',
                                    header_value = enc\<rparr>,
                                   \<lparr>header_key = string_new ''Content-Length'',
                                    header_value = string_new (decimal (length out))\<rparr>],
                                encoding := COMPRESSION_GZIP,
                                raw_body := Some out,
                                raw_body_len := length out\<rparr>))))"

definition content_length_layer :: LayerFn where
  "content_length_layer request response =
     (if encoding response = COMPRESSION_GZIP then (True, request, response)
      else (True, request,
            response\<lparr>res_headers := res_headers response @
              [\<lparr>header_key = string_new ''Content-Length'',
                header_value =
                  string_new (decimal (string_byte_length (res_body response)))\<rparr>]\<rparr>))"

definition connection_close_layer :: LayerFn where
  "connection_close_layer request response =
     (case http_request_get_header request ''Connection'' of
        None \<Rightarrow> (True, request, response)
      | Some connection_header \<Rightarrow>
          if string_equals_cstr (header_value connection_header) ''close''
          then (True, request,
                response\<lparr>res_headers := res_headers response @
                  [\<lparr>header_key = string_new ''Connection'',
                    header_value = string_new ''close''\<rparr>]\<rparr>)
          else (True, request, response))"

subsection \<open>The server object\<close>

record HttpServer =
  router :: "Route list"
  layer_ctx :: "Layer list"

definition http_server_init :: HttpServer where
  "http_server_init = \<lparr>router = [], layer_ctx = []\<rparr>"

definition http_server_add_builtins ::
  "(String \<Rightarrow> string option) \<Rightarrow> HttpServer \<Rightarrow> bool \<Rightarrow> HttpServer" where
  "http_server_add_builtins gzip_string server verbose =
     \<lparr>router =
        router_add_route
          (router_add_route
             (router_add_route (router server) ''/'' (method_value HTTP_GET) index_route True)
             ''/echo'' (method_value HTTP_GET) echo_route False)
          ''/user-agent'' (method_value HTTP_GET) user_agent_route False,
      layer_ctx =
        layers_add
          (layers_add
             (layers_add
                (layers_add
                   (if verbose
                    then layers_add
                           (layers_add (layer_ctx server) LAYER_PRE_ROUTE ''logging-preroute''
                              logging_layer_preroute_verbose True)
                           LAYER_POST_ROUTE ''logging-postroute''
                           logging_layer_postroute_verbose True
                    else layers_add
                           (layers_add (layer_ctx server) LAYER_PRE_ROUTE ''logging-preroute''
                              logging_layer_preroute_basic True)
                           LAYER_POST_ROUTE ''logging-postroute''
                           logging_layer_postroute_basic True)
                   LAYER_POST_ROUTE ''content-encoding''
                   (content_encoding_layer gzip_string) True)
                LAYER_POST_ROUTE ''content-length'' content_length_layer True)
             LAYER_POST_ROUTE ''connection-close'' connection_close_layer True)
          LAYER_POST_ROUTE ''request-memory-usage'' request_memory_usage_layer True\<rparr>"

section \<open>Connection coordinator (server.c)\<close>

text \<open>
  One turn of the loop of \<open>handle_client_request\<close>, from the point where the received
  bytes have been turned into \<open>request_string\<close> (NULL when \<open>string_new\<close> could not
  allocate) to the decision whether the loop goes on. The result is that decision and the
  bytes handed to \<open>send\<close>, if any. The CLEANUP layers run on objects that are freed
  right after, so what they return is dropped; with a NULL response \<open>layers_apply\<close>
  returns before it runs a layer.
\<close>

datatype cycle_outcome = Continue | Closing

definition handle_client_cycle ::
  "HttpServer \<Rightarrow> String option \<Rightarrow> int \<Rightarrow> bool \<Rightarrow> cycle_outcome \<times> string option" where
  "handle_client_cycle server request_string client_fd send_ok =
     (if \<not> fst (http_request_parse (Some http_request_new) request_string)
      then (Closing, None)
      else
        (let request = snd (http_request_parse (Some http_request_new) request_string);
             pre = layers_apply (Some (layer_ctx server)) LAYER_PRE_ROUTE
                     request (Some http_response_new);
             routed = router_route (Some (router server)) (fst (snd pre)) (snd (snd pre));
             post = layers_apply (Some (layer_ctx server)) LAYER_POST_ROUTE
                      (fst (snd routed)) (snd (snd routed));
             sent = http_response_send (snd (snd post)) client_fd send_ok
         in if \<not> fst sent then (Closing, snd sent)
            else
              (case fst (snd post) of
                 None \<Rightarrow> (Continue, snd sent)
               | Some rq \<Rightarrow>
                   (case http_request_get_header rq ''Connection'' of
                      None \<Rightarrow> (Continue, snd sent)
                    | Some connection_header \<Rightarrow>
                        if string_equals_cstr (header_value connection_header) ''close''
                        then (Closing, snd sent)
                        else (Continue, snd sent)))))"

section \<open>Allocation registry (alloc.h, alloc.c)\<close>

text \<open>
  The registry is the global state of alloc.c: two chained hash tables, one from addresses
  to allocation records and one from tags to the addresses allocated under them. A chain
  is a list with the most recently linked node first; a table is a function from bucket
  numbers to chains. Pointers and sizes are 64-bit words, NULL is 0.

  The C library is the registry's environment. Each call of the public interface takes a
  record \<open>libc\<close> that says what the library answers during that call: the block it
  returns for the caller's request (\<open>user_block\<close>, NULL when it refuses) and whether the
  registry's own bookkeeping requests succeed: the record of \<open>register_allocation\<close>
  (\<open>info_ok\<close>), the entry and the pointer list of \<open>create_tag_entry\<close> (\<open>entry_ok\<close>,
  \<open>ptrs_ok\<close>), the larger pointer list of \<open>add_ptr_to_tag\<close> (\<open>grow_ok\<close>) and the temporary
  array of \<open>pfree_tag\<close> (\<open>scratch_ok\<close>). The two tables that \<open>allocator_init_once\<close>
  requests are taken as granted: the code uses them unchecked. \<open>freed\<close> is a log, kept by
  the model only, of the caller's blocks that the registry has handed to \<open>free\<close>, in order.
\<close>

type_synonym addr = "64 word"

record alloc_info =
  info_ptr :: addr
  info_size :: "64 word"
  info_tag :: addr

record tag_entry =
  entry_tag :: addr
  entry_ptrs :: "addr list"
  entry_capacity :: nat

record libc =
  user_block :: addr
  info_ok :: bool
  entry_ok :: bool
  ptrs_ok :: bool
  grow_ok :: bool
  scratch_ok :: bool

record registry =
  g_alloc_table :: "nat \<Rightarrow> alloc_info list"
  g_alloc_table_size :: nat
  g_alloc_count :: "64 word"
  g_tag_table :: "nat \<Rightarrow> tag_entry list"
  g_tag_table_size :: nat
  g_tag_count :: "64 word"
  g_allocator_initialized :: bool
  freed :: "addr list"

datatype alloc_error = AssertionFailed

text \<open>The globals as the program starts: no tables yet, all counts zero.\<close>

definition registry_start :: registry where
  "registry_start =
     \<lparr>g_alloc_table = (\<lambda>i. []), g_alloc_table_size = 0, g_alloc_count = 0,
      g_tag_table = (\<lambda>i. []), g_tag_table_size = 0, g_tag_count = 0,
      g_allocator_initialized = False, freed = []\<rparr>"

definition ALLOC_TABLE_INITIAL_SIZE :: nat where "ALLOC_TABLE_INITIAL_SIZE = 256"
definition TAG_TABLE_INITIAL_SIZE :: nat where "TAG_TABLE_INITIAL_SIZE = 32"
definition PTR_LIST_INITIAL_SIZE :: nat where "PTR_LIST_INITIAL_SIZE = 8"

definition hash_pointer :: "addr \<Rightarrow> nat \<Rightarrow> nat" where
  "hash_pointer p table_size = unat (drop_bit 3 p) mod table_size"

definition allocator_init_once :: "registry \<Rightarrow> registry" where
  "allocator_init_once st =
     (if \<not> g_allocator_initialized st
      then st\<lparr>g_alloc_table_size := ALLOC_TABLE_INITIAL_SIZE,
              g_alloc_table := (\<lambda>i. []),
              g_tag_table_size := TAG_TABLE_INITIAL_SIZE,
              g_tag_table := (\<lambda>i. []),
              g_allocator_initialized := True\<rparr>
      else st)"

text \<open>The tables are NULL exactly as long as the allocator is not initialized.\<close>

definition find_alloc_info :: "registry \<Rightarrow> addr \<Rightarrow> alloc_info option" where
  "find_alloc_info st p =
     (if p = 0 \<or> \<not> g_allocator_initialized st then None
      else find (\<lambda>info. info_ptr info = p)
             (g_alloc_table st (hash_pointer p (g_alloc_table_size st))))"

definition find_tag_entry :: "registry \<Rightarrow> addr \<Rightarrow> tag_entry option" where
  "find_tag_entry st t =
     (if \<not> g_allocator_initialized st then None
      else find (\<lambda>entry. entry_tag entry = t)
             (g_tag_table st (hash_pointer t (g_tag_table_size st))))"

subsection \<open>Nodes of a chain\<close>

text \<open>
  The C code unlinks the first node of a chain that holds a given key, and writes through
  the pointer that a search returned, which is the first node with that key.
\<close>

fun remove_first :: "('a \<Rightarrow> bool) \<Rightarrow> 'a list \<Rightarrow> 'a list" where
  "remove_first P [] = []"
| "remove_first P (x # xs) = (if P x then xs else x # remove_first P xs)"

fun update_first :: "('a \<Rightarrow> bool) \<Rightarrow> ('a \<Rightarrow> 'a) \<Rightarrow> 'a list \<Rightarrow> 'a list" where
  "update_first P f [] = []"
| "update_first P f (x # xs) = (if P x then f x # xs else x # update_first P f xs)"

definition store_tag_entry :: "addr \<Rightarrow> (tag_entry \<Rightarrow> tag_entry) \<Rightarrow> registry \<Rightarrow> registry" where
  "store_tag_entry t f st =
     st\<lparr>g_tag_table := (g_tag_table st)
          (hash_pointer t (g_tag_table_size st) :=
             update_first (\<lambda>entry. entry_tag entry = t) f
               (g_tag_table st (hash_pointer t (g_tag_table_size st))))\<rparr>"

definition store_alloc_info :: "addr \<Rightarrow> (alloc_info \<Rightarrow> alloc_info) \<Rightarrow> registry \<Rightarrow> registry" where
  "store_alloc_info p f st =
     st\<lparr>g_alloc_table := (g_alloc_table st)
          (hash_pointer p (g_alloc_table_size st) :=
             update_first (\<lambda>info. info_ptr info = p) f
               (g_alloc_table st (hash_pointer p (g_alloc_table_size st))))\<rparr>"

text \<open>
  The loop that takes the first node for \<open>p\<close> out of its chain and decrements the count
  when it found one (in \<open>unregister_allocation\<close> and, inlined, in \<open>prealloc\<close>).
\<close>

definition unlink_alloc_info :: "addr \<Rightarrow> registry \<Rightarrow> registry" where
  "unlink_alloc_info p st =
     (case find (\<lambda>info. info_ptr info = p)
             (g_alloc_table st (hash_pointer p (g_alloc_table_size st))) of
        None \<Rightarrow> st
      | Some info \<Rightarrow>
          st\<lparr>g_alloc_table := (g_alloc_table st)
               (hash_pointer p (g_alloc_table_size st) :=
                  remove_first (\<lambda>info. info_ptr info = p)
                    (g_alloc_table st (hash_pointer p (g_alloc_table_size st)))),
             g_alloc_count := g_alloc_count st - 1\<rparr>)"

subsection \<open>Tag entries\<close>

definition add_ptr_to_tag :: "libc \<Rightarrow> tag_entry \<Rightarrow> addr \<Rightarrow> tag_entry" where
  "add_ptr_to_tag env entry p =
     (if entry_capacity entry \<le> length (entry_ptrs entry) then
        (if \<not> grow_ok env then entry
         else entry\<lparr>entry_capacity :=
                      (if entry_capacity entry * 2 = 0 then PTR_LIST_INITIAL_SIZE
                       else entry_capacity entry * 2),
                    entry_ptrs := entry_ptrs entry @ [p]\<rparr>)
      else entry\<lparr>entry_ptrs := entry_ptrs entry @ [p]\<rparr>)"

fun first_index :: "'a list \<Rightarrow> 'a \<Rightarrow> nat option" where
  "first_index [] p = None"
| "first_index (x # xs) p =
     (if x = p then Some 0 else map_option Suc (first_index xs p))"

text \<open>
  Removal moves the last pointer into the place of the first occurrence of \<open>p\<close> and
  shortens the array by one.
\<close>

definition remove_ptr_from_tag :: "tag_entry \<Rightarrow> addr \<Rightarrow> tag_entry" where
  "remove_ptr_from_tag entry p =
     (case first_index (entry_ptrs entry) p of
        None \<Rightarrow> entry
      | Some i \<Rightarrow>
          entry\<lparr>entry_ptrs :=
            take (length (entry_ptrs entry) - 1)
              (if i < length (entry_ptrs entry) - 1
               then (entry_ptrs entry)[i := entry_ptrs entry ! (length (entry_ptrs entry) - 1)]
               else entry_ptrs entry)\<rparr>)"

text \<open>The boolean says whether an entry was created (the C function returns it or NULL).\<close>

definition create_tag_entry :: "libc \<Rightarrow> addr \<Rightarrow> registry \<Rightarrow> bool \<times> registry" where
  "create_tag_entry env t st =
     (if \<not> entry_ok env then (False, st)
      else if \<not> ptrs_ok env then (False, st)
      else (True,
            st\<lparr>g_tag_table := (g_tag_table st)
                 (hash_pointer t (g_tag_table_size st) :=
                    \<lparr>entry_tag = t, entry_ptrs = [], entry_capacity = PTR_LIST_INITIAL_SIZE\<rparr>
                    # g_tag_table st (hash_pointer t (g_tag_table_size st))),
               g_tag_count := g_tag_count st + 1\<rparr>))"

text \<open>
  What the entry of tag \<open>t\<close> is after \<open>p\<close> has been added to it, given what it was before
  (\<open>None\<close>: there was no entry, and one is created if the library grants it).
\<close>

definition group_after_add :: "libc \<Rightarrow> addr \<Rightarrow> addr \<Rightarrow> tag_entry option \<Rightarrow> tag_entry option" where
  "group_after_add env p t old =
     (case old of
        Some entry \<Rightarrow> Some (add_ptr_to_tag env entry p)
      | None \<Rightarrow>
          if entry_ok env \<and> ptrs_ok env
          then Some (add_ptr_to_tag env
                 \<lparr>entry_tag = t, entry_ptrs = [], entry_capacity = PTR_LIST_INITIAL_SIZE\<rparr> p)
          else None)"

subsection \<open>Registering and unregistering\<close>

text \<open>Linking a fresh record at the head of its chain.\<close>

definition link_alloc_info :: "alloc_info \<Rightarrow> registry \<Rightarrow> registry" where
  "link_alloc_info info st =
     st\<lparr>g_alloc_table := (g_alloc_table st)
          (hash_pointer (info_ptr info) (g_alloc_table_size st) :=
             info # g_alloc_table st (hash_pointer (info_ptr info) (g_alloc_table_size st))),
        g_alloc_count := g_alloc_count st + 1\<rparr>"

definition register_allocation :: "libc \<Rightarrow> addr \<Rightarrow> 64 word \<Rightarrow> addr \<Rightarrow> registry \<Rightarrow> registry" where
  "register_allocation env p sz t st =
     (if \<not> info_ok env then st
      else
        (let st1 = link_alloc_info \<lparr>info_ptr = p, info_size = sz, info_tag = t\<rparr> st
         in (case find_tag_entry st1 t of
               Some tag_e \<Rightarrow> store_tag_entry t (\<lambda>entry. add_ptr_to_tag env entry p) st1
             | None \<Rightarrow>
                 if fst (create_tag_entry env t st1)
                 then store_tag_entry t (\<lambda>entry. add_ptr_to_tag env entry p)
                        (snd (create_tag_entry env t st1))
                 else snd (create_tag_entry env t st1))))"

definition unregister_allocation :: "addr \<Rightarrow> registry \<Rightarrow> alloc_info option \<times> registry" where
  "unregister_allocation p st =
     (if p = 0 then (None, st)
      else
        (case find (\<lambda>info. info_ptr info = p)
                (g_alloc_table st (hash_pointer p (g_alloc_table_size st))) of
           None \<Rightarrow> (None, st)
         | Some info \<Rightarrow>
             (Some info,
              (case find_tag_entry (unlink_alloc_info p st) (info_tag info) of
                 None \<Rightarrow> unlink_alloc_info p st
               | Some tag_e \<Rightarrow>
                   store_tag_entry (info_tag info) (\<lambda>entry. remove_ptr_from_tag entry p)
                     (unlink_alloc_info p st)))))"

subsection \<open>The public interface\<close>

definition pmalloc :: "libc \<Rightarrow> 64 word \<Rightarrow> addr \<Rightarrow> registry \<Rightarrow> addr \<times> registry" where
  "pmalloc env sz t st =
     (if user_block env = 0 then (0, allocator_init_once st)
      else (user_block env,
            register_allocation env (user_block env) sz t (allocator_init_once st)))"

definition pcalloc :: "libc \<Rightarrow> 64 word \<Rightarrow> 64 word \<Rightarrow> addr \<Rightarrow> registry \<Rightarrow> addr \<times> registry" where
  "pcalloc env n sz t st =
     (if user_block env = 0 then (0, allocator_init_once st)
      else (user_block env,
            register_allocation env (user_block env) (n * sz) t (allocator_init_once st)))"

text \<open>
  The branch of \<open>prealloc\<close> for a block that stayed in place while its tag changes: both
  entries are looked up first, then \<open>p\<close> is removed from the old one and added to the
  new one, which is created if it does not exist.
\<close>

definition retag_in_place :: "libc \<Rightarrow> addr \<Rightarrow> addr \<Rightarrow> addr \<Rightarrow> registry \<Rightarrow> registry" where
  "retag_in_place env p old_tag t st =
     (let st1 = (case find_tag_entry st old_tag of
                   None \<Rightarrow> st
                 | Some old_tag_e \<Rightarrow>
                     store_tag_entry old_tag (\<lambda>entry. remove_ptr_from_tag entry p) st);
          created = (case find_tag_entry st t of
                       None \<Rightarrow> create_tag_entry env t st1
                     | Some new_tag_e \<Rightarrow> (True, st1))
      in if fst created
         then store_tag_entry t (\<lambda>entry. add_ptr_to_tag env entry p) (snd created)
         else snd created)"

text \<open>
  \<open>prealloc\<close>: \<open>user_block\<close> is what \<open>realloc\<close> returns. When it differs from \<open>p\<close> the
  old record is unlinked, \<open>p\<close> is removed from the entry of its old tag and the new block is
  registered; otherwise the tag entries are adjusted if the tag changes and the record is
  overwritten in place. An unknown \<open>p\<close> fails the assertion, which aborts the process.
\<close>

definition prealloc ::
  "libc \<Rightarrow> addr \<Rightarrow> 64 word \<Rightarrow> addr \<Rightarrow> registry \<Rightarrow> alloc_error + addr \<times> registry" where
  "prealloc env p sz t st =
     (if p = 0 then Inr (pmalloc env sz t (allocator_init_once st))
      else
        (case find_alloc_info (allocator_init_once st) p of
           None \<Rightarrow> Inl AssertionFailed
         | Some info \<Rightarrow>
             if user_block env = 0 then Inr (0, allocator_init_once st)
             else if user_block env \<noteq> p then
               Inr (user_block env,
                    register_allocation env (user_block env) sz t
                      (case find_tag_entry (unlink_alloc_info p (allocator_init_once st))
                              (info_tag info) of
                         None \<Rightarrow> unlink_alloc_info p (allocator_init_once st)
                       | Some old_tag_e \<Rightarrow>
                           store_tag_entry (info_tag info)
                             (\<lambda>entry. remove_ptr_from_tag entry p)
                             (unlink_alloc_info p (allocator_init_once st))))
             else
               Inr (p,
                    store_alloc_info p (\<lambda>i. i\<lparr>info_size := sz, info_tag := t\<rparr>)
                      (if t \<noteq> info_tag info
                       then retag_in_place env p (info_tag info) t (allocator_init_once st)
                       else allocator_init_once st))))"

definition pfree :: "addr \<Rightarrow> registry \<Rightarrow> alloc_error + registry" where
  "pfree p st =
     (if p = 0 then Inr st
      else
        (case fst (unregister_allocation p (allocator_init_once st)) of
           None \<Rightarrow> Inl AssertionFailed
         | Some info \<Rightarrow>
             Inr ((snd (unregister_allocation p (allocator_init_once st)))
                    \<lparr>freed := freed (snd (unregister_allocation p (allocator_init_once st)))
                               @ [p]\<rparr>)))"

text \<open>One turn of the loop of \<open>pfree_tag\<close> over the copied pointers.\<close>

definition free_tagged :: "registry \<Rightarrow> addr \<Rightarrow> registry" where
  "free_tagged st p =
     (case find_alloc_info st p of
        None \<Rightarrow> st
      | Some info \<Rightarrow>
          (snd (unregister_allocation p st))
            \<lparr>freed := freed (snd (unregister_allocation p st)) @ [p]\<rparr>)"

definition pfree_tag :: "libc \<Rightarrow> addr \<Rightarrow> registry \<Rightarrow> registry" where
  "pfree_tag env t st =
     (case find_tag_entry (allocator_init_once st) t of
        None \<Rightarrow> allocator_init_once st
      | Some tag_e \<Rightarrow>
          if length (entry_ptrs tag_e) = 0 then allocator_init_once st
          else if \<not> scratch_ok env then allocator_init_once st
          else foldl free_tagged (allocator_init_once st) (entry_ptrs tag_e))"

text \<open>\<open>ptag_size\<close> returns the sum and, as it may initialize the allocator, the state.\<close>

definition ptag_size :: "addr \<Rightarrow> registry \<Rightarrow> 64 word \<times> registry" where
  "ptag_size t st =
     (if t = 0 then (0, st)
      else
        (case find_tag_entry (allocator_init_once st) t of
           None \<Rightarrow> (0, allocator_init_once st)
         | Some entry \<Rightarrow>
             (foldl (\<lambda>total_size p.
                       case find_alloc_info (allocator_init_once st) p of
                         None \<Rightarrow> total_size
                       | Some info \<Rightarrow> total_size + info_size info)
                0 (entry_ptrs entry),
              allocator_init_once st)))"

subsection \<open>The registry's invariant\<close>

text \<open>
  The table has buckets; no chain holds two records for one address, every record sits in
  the chain its address hashes to and no record is for NULL (\<open>chains_ok\<close>). The
  addresses listed in a tag's entry are pairwise different and each has a record under
  that tag (\<open>groups_sound\<close>). These two parts survive failed bookkeeping requests.
  \<open>registry_full\<close> adds the converse, the TagGroup invariant of the data model: every
  record's address is listed in the entry of its tag. \<open>record_count\<close> is the number of
  records that the whole table holds for an address.
\<close>

definition chains_ok :: "registry \<Rightarrow> bool" where
  "chains_ok st \<longleftrightarrow>
     0 < g_alloc_table_size st
     \<and> (\<forall>i. distinct (map info_ptr (g_alloc_table st i))
            \<and> (\<forall>info \<in> set (g_alloc_table st i).
                  info_ptr info \<noteq> 0
                  \<and> hash_pointer (info_ptr info) (g_alloc_table_size st) = i))"

definition record_count :: "registry \<Rightarrow> addr \<Rightarrow> nat" where
  "record_count st p =
     (\<Sum>i<g_alloc_table_size st.
        length (filter (\<lambda>info. info_ptr info = p) (g_alloc_table st i)))"

definition groups_sound :: "registry \<Rightarrow> bool" where
  "groups_sound st \<longleftrightarrow>
     (\<forall>t entry. find_tag_entry st t = Some entry \<longrightarrow>
        distinct (entry_ptrs entry)
        \<and> (\<forall>p \<in> set (entry_ptrs entry).
             \<exists>info. find_alloc_info st p = Some info \<and> info_tag info = t))"

definition groups_complete :: "registry \<Rightarrow> bool" where
  "groups_complete st \<longleftrightarrow>
     (\<forall>p info. find_alloc_info st p = Some info \<longrightarrow>
        (\<exists>entry. find_tag_entry st (info_tag info) = Some entry \<and> p \<in> set (entry_ptrs entry)))"

definition registry_inv :: "registry \<Rightarrow> bool" where
  "registry_inv st \<longleftrightarrow>
     g_allocator_initialized st \<and> chains_ok st \<and> groups_sound st"

definition registry_full :: "registry \<Rightarrow> bool" where
  "registry_full st \<longleftrightarrow> registry_inv st \<and> groups_complete st"

section \<open>Verified properties\<close>

subsection \<open>Rules for evaluating the model on concrete bytes\<close>

lemmas string_defs = string_new_def string_new_len_def string_new_empty_def string_length_def
  string_byte_length_def string_equals_def string_equals_cstr_def string_append_cstr_def
  string_append_def string_append_bytes_def string_char_index_to_byte_def
  string_byte_index_to_char_def string_find_cstr_def string_substring_def string_begins_with_def
  c_str_def NUL_def is_continuation_def string_utf8_char_len_def SIZE_MAX_def size_add_def size_sub_def
  CRLF_def count_utf8_chars.simps char_index_scan.simps char_start_scan.simps find_scan.simps

lemmas parse_line_unfold = parse_line_def [unfolded Let_def]

lemma http_request_parse_Some:
  "http_request_parse (Some rq) (Some rw) =
     (True, Some (if snd (parse_loop rq rw 0) < string_length rw
        then (fst (parse_loop rq rw 0))\<lparr>req_body :=
            string_substring rw (snd (parse_loop rq rw 0))
              (string_length rw - snd (parse_loop rq rw 0))\<rparr>
        else fst (parse_loop rq rw 0)))"
  by (simp add: http_request_parse_def split: prod.split)

lemmas response_builder_unfold = response_builder_def [unfolded Let_def]

subsection \<open>The range of \<open>string_substring\<close>\<close>

text \<open>
  The byte position of a character index grows with the index, so a call of
  \<open>string_substring\<close> whose end position does not wrap below its start is in range. Every
  call that the parser makes is of this kind, for a buffer that fits: the line cut out by
  the loop, the three parts of the request line, the key and the value of a header, and the
  body. The lines handed on are strings that fit again.
\<close>

lemma char_index_scan_mono:
  "ci \<le> cj \<Longrightarrow> byte_index \<le> length bytes \<Longrightarrow>
     char_index_scan bytes ci byte_index cc \<le> char_index_scan bytes cj byte_index cc"
proof (induction bytes ci byte_index cc rule: char_index_scan.induct)
  case (1 bytes char_index byte_index char_count)
  show ?case
  proof (cases "byte_index < length bytes \<and> char_count < char_index")
    case True
    let ?cc = "if \<not> is_continuation (bytes ! byte_index) then char_count + 1 else char_count"
    from True have step: "char_index_scan bytes char_index byte_index char_count
        = char_index_scan bytes char_index (byte_index + 1) ?cc"
      by (subst char_index_scan.simps) simp
    from True "1.prems"(1) have "byte_index < length bytes \<and> char_count < cj" by simp
    then have step': "char_index_scan bytes cj byte_index char_count
        = char_index_scan bytes cj (byte_index + 1) ?cc"
      by (subst char_index_scan.simps) simp
    from True have "byte_index + 1 \<le> length bytes" by simp
    from "1.IH" [OF True "1.prems"(1) this] show ?thesis unfolding step step' .
  next
    case False
    then have "char_index_scan bytes char_index byte_index char_count = byte_index"
      by (subst char_index_scan.simps) (simp only: if_False)
    with char_index_scan_bounds [OF "1.prems"(2), of cj char_count] show ?thesis by simp
  qed
qed

lemma char_start_scan_mono:
  "bi \<le> bj \<Longrightarrow> bj \<le> length bytes \<Longrightarrow>
     char_start_scan bytes bi \<le> char_start_scan bytes bj"
proof (induction bytes bi rule: char_start_scan.induct)
  case (1 bytes byte_index)
  show ?case
  proof (cases "byte_index < length bytes \<and> is_continuation (bytes ! byte_index)")
    case True
    then have step: "char_start_scan bytes byte_index = char_start_scan bytes (byte_index + 1)"
      by (subst char_start_scan.simps) simp
    show ?thesis
    proof (cases "byte_index = bj")
      case True
      then show ?thesis by simp
    next
      case False
      with "1.prems" have "byte_index + 1 \<le> bj" by simp
      from "1.IH" [OF True this "1.prems"(2)] show ?thesis unfolding step .
    qed
  next
    case False
    then have "char_start_scan bytes byte_index = byte_index"
      by (subst char_start_scan.simps) (simp only: if_False)
    with char_start_scan_bounds [OF "1.prems"(2)] "1.prems"(1) show ?thesis by simp
  qed
qed

lemma string_char_index_to_byte_le:
  "string_char_index_to_byte str k \<le> length (data str)"
  using char_index_scan_bounds [of 0 "data str" k 0]
    char_start_scan_bounds [of "char_index_scan (data str) k 0 0" "data str"]
  by (simp add: string_char_index_to_byte_def)

lemma string_char_index_to_byte_mono:
  assumes "s \<le> e"
  shows "string_char_index_to_byte str s \<le> string_char_index_to_byte str e"
proof (cases "char_len str \<le> e")
  case True
  then show ?thesis
    using string_char_index_to_byte_le [of str s] by (simp add: string_char_index_to_byte_def)
next
  case False
  with assms have "\<not> char_len str \<le> s" by simp
  with False show ?thesis
    using char_index_scan_mono [OF assms, of 0 "data str" 0]
      char_index_scan_bounds [of 0 "data str" e 0]
    by (simp add: string_char_index_to_byte_def char_start_scan_mono)
qed

lemma substring_in_range_forward:
  "start \<le> size_add start len \<Longrightarrow> substring_in_range str start len"
  by (cases "char_len str \<le> start")
     (simp_all add: substring_in_range_def string_char_index_to_byte_mono)

lemma count_utf8_chars_le: "count_utf8_chars bs \<le> length bs"
proof (induction bs rule: count_utf8_chars.induct)
  case 1
  show ?case by (simp add: count_utf8_chars.simps)
next
  case (2 c cs)
  let ?n = "string_utf8_char_len (c # cs)"
  show ?case
  proof (cases "?n = 0 \<or> length (c # cs) < ?n")
    case True
    then show ?thesis by (auto simp: count_utf8_chars.simps)
  next
    case False
    then have a: "?n \<noteq> 0" and b: "\<not> length (c # cs) < ?n" by simp_all
    from "2.IH" [OF a b] have "count_utf8_chars (drop ?n (c # cs)) \<le> length (c # cs) - ?n"
      by simp
    with a b show ?thesis by (subst count_utf8_chars.simps) (simp, arith)
  qed
qed

lemma string_new_len_fits:
  "length bs < 2 ^ 64 \<Longrightarrow> string_fits (string_new_len bs n)"
  using count_utf8_chars_le [of "take n bs"]
  by (simp add: string_fits_def string_new_len_def)

lemma string_substring_fits:
  assumes "string_fits str"
  shows "string_fits (string_substring str start len)"
proof -
  have "string_fits string_new_empty"
    by (simp add: string_new_empty_def string_new_len_fits)
  moreover have "length (drop k (data str)) < 2 ^ 64" for k
    using assms less_imp_diff_less [of "length (data str)" "2 ^ 64" k]
    by (simp only: string_fits_def length_drop)
  ultimately show ?thesis
    by (simp add: string_substring_def string_new_len_fits)
qed

lemma size_add_small: "a + b < 2 ^ 64 \<Longrightarrow> size_add a b = a + b"
  by (simp add: size_add_def)

lemma size_sub_small:
  assumes "b \<le> a" and "a < 2 ^ 64"
  shows "size_sub a b = a - b"
proof -
  from assms have "b < 2 ^ 64" by (rule le_less_trans)
  then have "b mod 2 ^ 64 = b" by (rule mod_less)
  moreover from assms(1) have "a + 2 ^ 64 - b = (a - b) + 2 ^ 64" by (rule Nat.diff_add_assoc2)
  moreover have "((a - b) + 2 ^ 64) mod 2 ^ 64 = (a - b) mod (2 ^ 64 :: nat)"
    by (rule mod_add_self2)
  moreover have "a - b < 2 ^ 64" using assms(2) by (rule less_imp_diff_less)
  then have "(a - b) mod 2 ^ 64 = a - b" by (rule mod_less)
  ultimately show ?thesis unfolding size_sub_def by (simp only:)
qed

lemma substring_in_range_to:
  assumes "start \<le> e" and "e < 2 ^ 64"
  shows "substring_in_range str start (e - start)"
proof -
  from assms have "size_add start (e - start) = e" by (simp add: size_add_small)
  with assms(1) show ?thesis by (simp add: substring_in_range_forward)
qed

lemma string_find_cstr_le:
  assumes "string_find_cstr str substr start \<noteq> SIZE_MAX" and "c_str substr \<noteq> []"
    and "string_fits str"
  shows "string_find_cstr str substr start < 2 ^ 64"
proof -
  have "string_byte_index_to_char str i \<le> length (data str)" for i
    using assms(3)
    by (simp add: string_byte_index_to_char_def string_fits_def
        le_trans [OF length_filter_le])
  with assms show ?thesis
    by (auto simp: string_find_cstr_def string_fits_def split: if_splits option.splits
        intro: le_less_trans)
qed

lemma substring_in_range_rest:
  assumes "string_fits str"
  shows "substring_in_range str v (size_sub (string_length str) v)"
proof (cases "char_len str \<le> v")
  case True
  then show ?thesis by (simp add: substring_in_range_def)
next
  case False
  then have v: "v \<le> char_len str" by simp
  from assms have cl: "char_len str < 2 ^ 64"
    unfolding string_fits_def by (elim conjE) (rule le_less_trans)
  from substring_in_range_to [OF v cl] show ?thesis
    by (simp only: string_length_def size_sub_small [OF v cl])
qed

lemma substring_in_range_found:
  assumes "string_fits str" and "c_str substr \<noteq> []"
    and "start < 2 ^ 64"
  shows "substring_in_range str start (size_sub (string_find_cstr str substr start) start)"
proof (cases "string_find_cstr str substr start = SIZE_MAX")
  case True
  have le: "start \<le> SIZE_MAX" using assms(3) by (simp add: SIZE_MAX_def)
  have mx: "SIZE_MAX < 2 ^ 64" by (simp add: SIZE_MAX_def)
  from substring_in_range_to [OF le mx] show ?thesis
    by (simp only: True size_sub_small [OF le mx])
next
  case False
  from string_find_cstr_found [OF assms(2) False]
  have le: "start \<le> string_find_cstr str substr start" by simp
  from string_find_cstr_le [OF False assms(2,1)]
  have lt: "string_find_cstr str substr start < 2 ^ 64" .
  from substring_in_range_to [OF le lt] show ?thesis
    by (simp only: size_sub_small [OF le lt])
qed

lemma size_add_less: "size_add a b < 2 ^ 64"
  by (simp add: size_add_def)

lemma parse_loop_substring_in_range:
  assumes "string_fits raw" and "string_find_cstr raw CRLF start \<noteq> SIZE_MAX"
  shows "substring_in_range raw start (string_find_cstr raw CRLF start - start)"
proof -
  have ne: "c_str CRLF \<noteq> []" by (simp add: c_str_def CRLF_def NUL_def)
  from string_find_cstr_found [OF ne assms(2)]
  have le: "start \<le> string_find_cstr raw CRLF start" by simp
  from substring_in_range_to [OF le string_find_cstr_le [OF assms(2) ne assms(1)]]
  show ?thesis .
qed

lemma parse_line_substrings_in_range:
  assumes "string_fits line"
  shows "substring_in_range line 0 (string_find_cstr line '' '' 0)"
    and "substring_in_range line (size_add (string_find_cstr line '' '' 0) 1)
           (size_sub
              (string_find_cstr line '' '' (size_add (string_find_cstr line '' '' 0) 1))
              (size_add (string_find_cstr line '' '' 0) 1))"
    and "substring_in_range line
           (size_add
              (string_find_cstr line '' '' (size_add (string_find_cstr line '' '' 0) 1)) 1)
           (size_sub (string_length line)
              (size_add
                 (string_find_cstr line '' '' (size_add (string_find_cstr line '' '' 0) 1))
                 1))"
    and "substring_in_range line 0 (string_find_cstr line '': '' 0)"
    and "string_find_cstr line '': '' 0 \<noteq> SIZE_MAX \<Longrightarrow>
         substring_in_range line (string_find_cstr line '': '' 0 + 2)
           (size_sub (size_sub (string_length line) (string_find_cstr line '': '' 0)) 2)"
proof -
  have sp: "c_str '' '' \<noteq> []" by (simp add: c_str_def NUL_def)
  have co: "c_str '': '' \<noteq> []" by (simp add: c_str_def NUL_def)
  from assms have cl: "char_len line < 2 ^ 64"
    unfolding string_fits_def by (elim conjE) (rule le_less_trans)
  show "substring_in_range line 0 (string_find_cstr line '' '' 0)"
    by (rule substring_in_range_forward) simp
  show "substring_in_range line 0 (string_find_cstr line '': '' 0)"
    by (rule substring_in_range_forward) simp
  show "substring_in_range line (size_add (string_find_cstr line '' '' 0) 1)
           (size_sub
              (string_find_cstr line '' '' (size_add (string_find_cstr line '' '' 0) 1))
              (size_add (string_find_cstr line '' '' 0) 1))"
    by (rule substring_in_range_found [OF assms sp size_add_less])
  show "substring_in_range line
           (size_add
              (string_find_cstr line '' '' (size_add (string_find_cstr line '' '' 0) 1)) 1)
           (size_sub (string_length line)
              (size_add
                 (string_find_cstr line '' '' (size_add (string_find_cstr line '' '' 0) 1))
                 1))"
    by (rule substring_in_range_rest [OF assms])
  show "substring_in_range line (string_find_cstr line '': '' 0 + 2)
           (size_sub (size_sub (string_length line) (string_find_cstr line '': '' 0)) 2)"
    if found: "string_find_cstr line '': '' 0 \<noteq> SIZE_MAX"
  proof (cases "char_len line \<le> string_find_cstr line '': '' 0 + 2")
    case True
    then show ?thesis by (simp add: substring_in_range_def)
  next
    case False
    let ?cp = "string_find_cstr line '': '' 0"
    from False have a: "?cp \<le> char_len line" and b: "2 \<le> char_len line - ?cp"
      and c: "?cp + 2 \<le> char_len line"
      by simp_all
    have d: "char_len line - ?cp < 2 ^ 64" using cl by (rule less_imp_diff_less)
    have e: "char_len line - ?cp - 2 = char_len line - (?cp + 2)" by simp
    from substring_in_range_to [OF c cl] show ?thesis
      by (simp only: string_length_def size_sub_small [OF a cl] size_sub_small [OF b d] e)
  qed
qed

lemma body_substring_in_range:
  assumes "string_fits raw" and "start < string_length raw"
  shows "substring_in_range raw start (string_length raw - start)"
proof -
  from assms(1) have cl: "char_len raw < 2 ^ 64"
    unfolding string_fits_def by (elim conjE) (rule le_less_trans)
  from assms(2) have le: "start \<le> char_len raw" by (simp add: string_length_def)
  from substring_in_range_to [OF le cl] show ?thesis by (simp only: string_length_def)
qed

subsection \<open>Parser\<close>

lemma parse_loop_example:
  "parse_loop http_request_new
     (string_new (''GET /echo/hi HTTP/1.1'' @ CRLF @ ''Host: x'' @ CRLF @ CRLF @ ''body'')) 0
   = (\<lparr>request_line =
        \<lparr>http_method = HTTP_GET, target = \<lparr>data = ''/echo/hi'', char_len = 8\<rparr>,
         version = HTTP_1_1\<rparr>,
      req_headers =
        [\<lparr>header_key = \<lparr>data = ''Host'', char_len = 4\<rparr>,
          header_value = \<lparr>data = ''x'', char_len = 1\<rparr>\<rparr>],
      req_body = \<lparr>data = [], char_len = 0\<rparr>\<rparr>, 34)"
  by (simp add: http_request_new_def parse_loop.simps parse_line_unfold
      parse_method_def parse_version_def string_defs)

text \<open>
  Claim C4. Parsing the bytes \<open>GET /echo/hi HTTP/1.1\r\nHost: x\r\n\r\nbody\<close> succeeds and
  yields the method GET, the target \<open>/echo/hi\<close>, the version 1.1, exactly one header with
  key \<open>Host\<close> and value \<open>x\<close>, and the body \<open>body\<close>.
\<close>

theorem parse_example_request:
  "http_request_parse (Some http_request_new)
     (Some (string_new (''GET /echo/hi HTTP/1.1'' @ CRLF @ ''Host: x'' @ CRLF @ CRLF @ ''body'')))
   = (True,
      Some \<lparr>request_line =
              \<lparr>http_method = HTTP_GET, target = string_new ''/echo/hi'', version = HTTP_1_1\<rparr>,
            req_headers = [\<lparr>header_key = string_new ''Host'', header_value = string_new ''x''\<rparr>],
            req_body = string_new ''body''\<rparr>)"
  unfolding http_request_parse_Some parse_loop_example
  by (simp add: string_defs)

lemma parse_loop_empty:
  "parse_loop rq (string_new []) 0 = (rq, 0)"
  by (simp add: parse_loop.simps string_defs)

lemma parse_loop_garbage:
  "parse_loop http_request_new (string_new (''GARBAGE'' @ CRLF @ CRLF)) 0
   = (\<lparr>request_line =
        \<lparr>http_method = HTTP_UNKNOWN, target = \<lparr>data = ''GARBAGE'', char_len = 7\<rparr>,
         version = HTTP_UNKNOWN_VERSION\<rparr>,
      req_headers = [],
      req_body = \<lparr>data = [], char_len = 0\<rparr>\<rparr>, 11)"
  by (simp add: http_request_new_def parse_loop.simps parse_line_unfold
      parse_method_def parse_version_def string_defs)

text \<open>
  Claim C5, as stated, fails: the parser reports success on the empty input, leaving the
  request as it was, and on an input whose first line \<open>GARBAGE\<close> is no request line
  (the method stays \<open>HTTP_UNKNOWN\<close>, the whole line becomes the target).
\<close>

theorem parse_accepts_empty_and_malformed:
  "http_request_parse (Some http_request_new) (Some (string_new []))
     = (True, Some http_request_new)
   \<and> http_request_parse (Some http_request_new) (Some (string_new (''GARBAGE'' @ CRLF @ CRLF)))
     = (True,
        Some \<lparr>request_line =
                \<lparr>http_method = HTTP_UNKNOWN, target = string_new ''GARBAGE'',
                 version = HTTP_UNKNOWN_VERSION\<rparr>,
              req_headers = [], req_body = string_new []\<rparr>)"
  unfolding http_request_parse_Some parse_loop_empty parse_loop_garbage
  by (simp add: string_defs)

text \<open>
  Claim C5, amended. \<open>http_request_parse\<close> reports failure exactly when the request
  object or the raw buffer is missing (a NULL pointer): for every raw byte string, the
  empty one and one with a malformed first line included, it reports success, and on the
  empty string it returns the request unchanged. When it does report failure, the turn of
  the connection's loop ends with the decision to close this connection and nothing is
  sent.
\<close>

theorem parse_failure_only_on_null:
  "(\<forall>rq raw. fst (http_request_parse (Some rq) (Some raw)))
   \<and> (\<forall>rq. \<not> fst (http_request_parse rq None))
   \<and> (\<forall>raw. \<not> fst (http_request_parse None raw))
   \<and> (\<forall>rq. http_request_parse (Some rq) (Some (string_new [])) = (True, Some rq))
   \<and> (\<forall>server request_string client_fd send_ok.
        \<not> fst (http_request_parse (Some http_request_new) request_string) \<longrightarrow>
        handle_client_cycle server request_string client_fd send_ok = (Closing, None))"
proof (intro conjI allI impI)
  fix rq raw
  show "fst (http_request_parse (Some rq) (Some raw))"
    by (simp add: http_request_parse_Some)
next
  fix rq
  show "\<not> fst (http_request_parse rq None)"
    by (simp add: http_request_parse_def split: option.split)
next
  fix raw
  show "\<not> fst (http_request_parse None raw)"
    by (simp add: http_request_parse_def)
next
  fix rq
  show "http_request_parse (Some rq) (Some (string_new [])) = (True, Some rq)"
    unfolding http_request_parse_Some parse_loop_empty
    by (simp add: string_defs)
next
  fix server request_string client_fd send_ok
  assume "\<not> fst (http_request_parse (Some http_request_new) request_string)"
  then show "handle_client_cycle server request_string client_fd send_ok = (Closing, None)"
    by (simp add: handle_client_cycle_def)
qed

theorem parse_failure_only_on_null_witness:
  "handle_client_cycle http_server_init None 3 True = (Closing, None)"
proof -
  have "\<not> fst (http_request_parse (Some http_request_new) None)"
    by (simp add: http_request_parse_def)
  from parse_failure_only_on_null [THEN conjunct2, THEN conjunct2, THEN conjunct2,
      THEN conjunct2, rule_format, OF this]
  show ?thesis .
qed

subsection \<open>Pipeline\<close>

lemma layers_loop_append:
  "layers_loop (pre @ post) stage rq rs =
     (if fst (layers_loop pre stage rq rs)
      then layers_loop post stage (fst (snd (layers_loop pre stage rq rs)))
             (snd (snd (layers_loop pre stage rq rs)))
      else layers_loop pre stage rq rs)"
  by (induction pre stage rq rs rule: layers_loop.induct) simp_all

lemma layers_apply_Some:
  "layers_apply (Some layers) stage (Some rq) (Some rs) =
     (fst (layers_loop layers stage rq rs),
      Some (fst (snd (layers_loop layers stage rq rs))),
      Some (snd (snd (layers_loop layers stage rq rs))))"
  by (simp add: layers_apply_def)

text \<open>
  Claim C8. \<open>layers_apply\<close> runs the layers of the requested stage in registration order:
  running a list \<open>pre @ post\<close> is running \<open>pre\<close> and then, if \<open>pre\<close> did not stop the
  stage, \<open>post\<close> on the request and response that \<open>pre\<close> left; once \<open>pre\<close> has returned
  false the result is that of \<open>pre\<close>, whatever follows it, so the remaining layers are not
  run. A single layer of another stage is skipped and leaves everything unchanged; a layer
  of the stage that returns false yields true when \<open>can_fail\<close> is set (the failure is ignored)
  and false otherwise. For the POST_ROUTE layers A (can fail, fails), B (cannot fail, fails)
  and C, the result is false together with exactly what B made of A's output: A and B have
  run, C has not.
\<close>

theorem layers_apply_stage_semantics:
  "(\<forall>pre post stage rq rs rq1 rs1.
      layers_apply (Some pre) stage (Some rq) (Some rs) = (True, Some rq1, Some rs1) \<longrightarrow>
      layers_apply (Some (pre @ post)) stage (Some rq) (Some rs)
        = layers_apply (Some post) stage (Some rq1) (Some rs1))
   \<and> (\<forall>pre post stage rq rs rq1 rs1.
      layers_apply (Some pre) stage (Some rq) (Some rs) = (False, rq1, rs1) \<longrightarrow>
      layers_apply (Some (pre @ post)) stage (Some rq) (Some rs) = (False, rq1, rs1))
   \<and> (\<forall>l stage rq rs.
      layers_apply (Some [l]) stage (Some rq) (Some rs) =
        (if layer_when l \<noteq> stage then (True, Some rq, Some rs)
         else (fst (layer_apply l rq rs) \<or> can_fail l,
               Some (fst (snd (layer_apply l rq rs))),
               Some (snd (snd (layer_apply l rq rs))))))
   \<and> (\<forall>fa fb fc rq rs.
      \<not> fst (fa rq rs) \<and> \<not> fst (fb (fst (snd (fa rq rs))) (snd (snd (fa rq rs)))) \<longrightarrow>
      layers_apply
        (Some [\<lparr>layer_name = ''A'', layer_when = LAYER_POST_ROUTE, layer_fn = Some fa,
                 can_fail = True\<rparr>,
               \<lparr>layer_name = ''B'', layer_when = LAYER_POST_ROUTE, layer_fn = Some fb,
                 can_fail = False\<rparr>,
               \<lparr>layer_name = ''C'', layer_when = LAYER_POST_ROUTE, layer_fn = Some fc,
                 can_fail = True\<rparr>])
        LAYER_POST_ROUTE (Some rq) (Some rs)
      = (False,
         Some (fst (snd (fb (fst (snd (fa rq rs))) (snd (snd (fa rq rs)))))),
         Some (snd (snd (fb (fst (snd (fa rq rs))) (snd (snd (fa rq rs))))))))"
proof (intro conjI allI impI)
  fix pre post stage rq rs rq1 rs1
  assume "layers_apply (Some pre) stage (Some rq) (Some rs) = (True, Some rq1, Some rs1)"
  then show "layers_apply (Some (pre @ post)) stage (Some rq) (Some rs)
        = layers_apply (Some post) stage (Some rq1) (Some rs1)"
    by (simp add: layers_apply_Some layers_loop_append)
next
  fix pre post stage rq rs rq1 rs1
  assume "layers_apply (Some pre) stage (Some rq) (Some rs) = (False, rq1, rs1)"
  then show "layers_apply (Some (pre @ post)) stage (Some rq) (Some rs) = (False, rq1, rs1)"
    by (simp add: layers_apply_Some layers_loop_append)
next
  fix l stage rq rs
  show "layers_apply (Some [l]) stage (Some rq) (Some rs) =
        (if layer_when l \<noteq> stage then (True, Some rq, Some rs)
         else (fst (layer_apply l rq rs) \<or> can_fail l,
               Some (fst (snd (layer_apply l rq rs))),
               Some (snd (snd (layer_apply l rq rs)))))"
    by (simp add: layers_apply_Some)
next
  fix fa fb fc :: LayerFn and rq rs
  assume "\<not> fst (fa rq rs) \<and> \<not> fst (fb (fst (snd (fa rq rs))) (snd (snd (fa rq rs))))"
  then show "layers_apply
        (Some [\<lparr>layer_name = ''A'', layer_when = LAYER_POST_ROUTE, layer_fn = Some fa,
                 can_fail = True\<rparr>,
               \<lparr>layer_name = ''B'', layer_when = LAYER_POST_ROUTE, layer_fn = Some fb,
                 can_fail = False\<rparr>,
               \<lparr>layer_name = ''C'', layer_when = LAYER_POST_ROUTE, layer_fn = Some fc,
                 can_fail = True\<rparr>])
        LAYER_POST_ROUTE (Some rq) (Some rs)
      = (False,
         Some (fst (snd (fb (fst (snd (fa rq rs))) (snd (snd (fa rq rs)))))),
         Some (snd (snd (fb (fst (snd (fa rq rs))) (snd (snd (fa rq rs)))))))"
    by (simp add: layers_apply_Some layer_apply_def)
qed

theorem layers_apply_stage_semantics_witness:
  "layers_apply
     (Some ([\<lparr>layer_name = ''A'', layer_when = LAYER_POST_ROUTE,
              layer_fn = Some (\<lambda>rq rs. (False, rq, rs\<lparr>status := Some ''A''\<rparr>)),
              can_fail = True\<rparr>]
            @ [\<lparr>layer_name = ''B'', layer_when = LAYER_POST_ROUTE,
              layer_fn = Some (\<lambda>rq rs. (True, rq, rs\<lparr>raw_body := status rs\<rparr>)),
              can_fail = False\<rparr>]))
     LAYER_POST_ROUTE (Some http_request_new) (Some http_response_new)
   = (True, Some http_request_new,
      Some (http_response_new\<lparr>status := Some ''A'', raw_body := Some ''A''\<rparr>))
   \<and> layers_apply
     (Some ([\<lparr>layer_name = ''B'', layer_when = LAYER_POST_ROUTE,
              layer_fn = Some (\<lambda>rq rs. (False, rq, rs\<lparr>raw_body := status rs\<rparr>)),
              can_fail = False\<rparr>]
            @ [\<lparr>layer_name = ''C'', layer_when = LAYER_POST_ROUTE,
              layer_fn = Some (\<lambda>rq rs. (True, rq, rs\<lparr>status := Some ''C''\<rparr>)),
              can_fail = True\<rparr>]))
     LAYER_POST_ROUTE (Some http_request_new) (Some http_response_new)
   = (False, Some http_request_new, Some (http_response_new\<lparr>raw_body := None\<rparr>))
   \<and> layers_apply
     (Some [\<lparr>layer_name = ''A'', layer_when = LAYER_POST_ROUTE,
              layer_fn = Some (\<lambda>rq rs. (False, rq, rs\<lparr>status := Some ''A''\<rparr>)),
              can_fail = True\<rparr>,
            \<lparr>layer_name = ''B'', layer_when = LAYER_POST_ROUTE,
              layer_fn = Some (\<lambda>rq rs. (False, rq, rs\<lparr>raw_body := status rs\<rparr>)),
              can_fail = False\<rparr>,
            \<lparr>layer_name = ''C'', layer_when = LAYER_POST_ROUTE,
              layer_fn = Some (\<lambda>rq rs. (True, rq, rs\<lparr>status := Some ''C''\<rparr>)),
              can_fail = True\<rparr>])
     LAYER_POST_ROUTE (Some http_request_new) (Some http_response_new)
   = (False, Some http_request_new,
      Some (http_response_new\<lparr>status := Some ''A'', raw_body := Some ''A''\<rparr>))"
proof (intro conjI)
  let ?A = "\<lparr>layer_name = ''A'', layer_when = LAYER_POST_ROUTE,
              layer_fn = Some (\<lambda>rq rs. (False, rq, rs\<lparr>status := Some ''A''\<rparr>)),
              can_fail = True\<rparr>"
  let ?B = "\<lparr>layer_name = ''B'', layer_when = LAYER_POST_ROUTE,
              layer_fn = Some (\<lambda>rq rs. (True, rq, rs\<lparr>raw_body := status rs\<rparr>)),
              can_fail = False\<rparr>"
  have pre: "layers_apply (Some [?A]) LAYER_POST_ROUTE (Some http_request_new)
               (Some http_response_new)
             = (True, Some http_request_new, Some (http_response_new\<lparr>status := Some ''A''\<rparr>))"
    by (simp add: layers_apply_def layer_apply_def)
  from layers_apply_stage_semantics [THEN conjunct1, rule_format, OF pre, of "[?B]"]
  show "layers_apply (Some ([?A] @ [?B])) LAYER_POST_ROUTE (Some http_request_new)
          (Some http_response_new)
        = (True, Some http_request_new,
           Some (http_response_new\<lparr>status := Some ''A'', raw_body := Some ''A''\<rparr>))"
    by (simp add: layers_apply_def layer_apply_def)
next
  let ?B = "\<lparr>layer_name = ''B'', layer_when = LAYER_POST_ROUTE,
              layer_fn = Some (\<lambda>rq rs. (False, rq, rs\<lparr>raw_body := status rs\<rparr>)),
              can_fail = False\<rparr>"
  let ?C = "\<lparr>layer_name = ''C'', layer_when = LAYER_POST_ROUTE,
              layer_fn = Some (\<lambda>rq rs. (True, rq, rs\<lparr>status := Some ''C''\<rparr>)),
              can_fail = True\<rparr>"
  have pre: "layers_apply (Some [?B]) LAYER_POST_ROUTE (Some http_request_new)
               (Some http_response_new)
             = (False, Some http_request_new, Some (http_response_new\<lparr>raw_body := None\<rparr>))"
    by (simp add: layers_apply_def layer_apply_def http_response_new_def)
  from layers_apply_stage_semantics [THEN conjunct2, THEN conjunct1, rule_format, OF pre,
      of "[?C]"]
  show "layers_apply (Some ([?B] @ [?C])) LAYER_POST_ROUTE (Some http_request_new)
          (Some http_response_new)
        = (False, Some http_request_new, Some (http_response_new\<lparr>raw_body := None\<rparr>))" .
next
  let ?fa = "\<lambda>(rq :: HttpRequest) (rs :: HttpResponse). (False, rq, rs\<lparr>status := Some ''A''\<rparr>)"
  let ?fb = "\<lambda>(rq :: HttpRequest) (rs :: HttpResponse). (False, rq, rs\<lparr>raw_body := status rs\<rparr>)"
  let ?fc = "\<lambda>(rq :: HttpRequest) (rs :: HttpResponse). (True, rq, rs\<lparr>status := Some ''C''\<rparr>)"
  have fails: "\<not> fst (?fa http_request_new http_response_new)
      \<and> \<not> fst (?fb (fst (snd (?fa http_request_new http_response_new)))
                    (snd (snd (?fa http_request_new http_response_new))))"
    by simp
  from layers_apply_stage_semantics [THEN conjunct2, THEN conjunct2, THEN conjunct2,
      rule_format, of ?fa http_request_new http_response_new ?fb ?fc, OF fails]
  show "layers_apply
     (Some [\<lparr>layer_name = ''A'', layer_when = LAYER_POST_ROUTE, layer_fn = Some ?fa,
              can_fail = True\<rparr>,
            \<lparr>layer_name = ''B'', layer_when = LAYER_POST_ROUTE, layer_fn = Some ?fb,
              can_fail = False\<rparr>,
            \<lparr>layer_name = ''C'', layer_when = LAYER_POST_ROUTE, layer_fn = Some ?fc,
              can_fail = True\<rparr>])
     LAYER_POST_ROUTE (Some http_request_new) (Some http_response_new)
   = (False, Some http_request_new,
      Some (http_response_new\<lparr>status := Some ''A'', raw_body := Some ''A''\<rparr>))"
    by simp
qed

subsection \<open>Router\<close>

text \<open>
  The code is compared with the router of the specification. The two agree on every
  request whose method is one of the verbs, as long as the route paths consist of
  single-byte characters (as all built-in paths do) and the target's character count is
  the one the string library computes: there \<open>router_route\<close> runs exactly the handler of
  the first route that matches, in registration order, and answers 404 with false when
  none does. They differ in two places. \<open>IN_METHODS\<close> holds of \<open>HTTP_UNKNOWN\<close> for every
  mask, and \<open>string_begins_with\<close> compares as many bytes as the prefix has characters, so
  that a route path with a multi-byte character matches targets it is no prefix of.
\<close>

lemma IN_METHODS_unknown: "IN_METHODS ms HTTP_UNKNOWN"
  by (simp add: IN_METHODS_def)

lemma and_one_bit:
  fixes w :: "32 word"
  assumes "n < 32"
  shows "(w AND 2 ^ n = 2 ^ n) \<longleftrightarrow> (w AND 2 ^ n \<noteq> 0)"
proof (cases "bit w n")
  case True
  then have "w AND 2 ^ n = 2 ^ n"
    by (intro bit_eqI) (auto simp: bit_and_iff bit_exp_iff)
  moreover have "(2 :: 32 word) ^ n \<noteq> 0" using assms by (simp add: exp_eq_zero_iff)
  ultimately show ?thesis by simp
next
  case False
  then have "w AND 2 ^ n = 0" by (simp add: and_exp_eq_0_iff_not_bit)
  moreover have "(2 :: 32 word) ^ n \<noteq> 0" using assms by (simp add: exp_eq_zero_iff)
  ultimately show ?thesis by simp
qed

lemma IN_METHODS_known:
  "m \<noteq> HTTP_UNKNOWN \<Longrightarrow> IN_METHODS ms m \<longleftrightarrow> m \<in> set (mask_members ms)"
  using and_one_bit [where w = ms and n = 0] and_one_bit [where w = ms and n = 1]
    and_one_bit [where w = ms and n = 2] and_one_bit [where w = ms and n = 3]
    and_one_bit [where w = ms and n = 4] and_one_bit [where w = ms and n = 5]
    and_one_bit [where w = ms and n = 6]
  by (cases m) (simp_all add: IN_METHODS_def mask_members_def)

lemma single_byte_not_continuation: "single_byte c \<Longrightarrow> \<not> is_continuation c"
proof
  assume sb: "single_byte c" and "is_continuation c"
  then have "(of_char c :: 8 word) AND 0xC0 = 0x80" by (simp add: is_continuation_def)
  then have "((of_char c :: 8 word) AND 0xC0) AND 0x80 = 0x80" by simp
  then have "(of_char c :: 8 word) AND 0x80 = 0x80" by (simp add: and.assoc)
  with sb show False by (simp add: single_byte_def)
qed

lemma single_byte_char_len:
  "single_byte c \<Longrightarrow> string_utf8_char_len (c # cs) = 1"
  by (simp add: string_utf8_char_len_def single_byte_def)

lemma count_single_byte:
  "list_all single_byte bs \<Longrightarrow> count_utf8_chars bs = length bs"
proof (induction bs)
  case Nil
  then show ?case by (simp add: count_utf8_chars.simps)
next
  case (Cons c cs)
  then have "single_byte c" and "list_all single_byte cs" by simp_all
  with Cons.IH show ?case
    by (simp add: count_utf8_chars.simps single_byte_char_len single_byte_not_continuation)
qed

lemma count_single_byte_prefix:
  "list_all single_byte p \<Longrightarrow> take (length p) bs = p \<Longrightarrow> length p \<le> count_utf8_chars bs"
proof (induction p arbitrary: bs)
  case Nil
  then show ?case by simp
next
  case (Cons c cs)
  from Cons.prems(2) obtain bs' where bs: "bs = c # bs'" and rest: "take (length cs) bs' = cs"
    by (cases bs) auto
  from Cons.prems(1) have c: "single_byte c" and cs: "list_all single_byte cs" by simp_all
  from Cons.IH [OF cs rest] have "length cs \<le> count_utf8_chars bs'" .
  with c show ?case
    by (simp add: bs count_utf8_chars.simps single_byte_char_len single_byte_not_continuation)
qed

lemma string_new_single_byte:
  "list_all single_byte p \<Longrightarrow> single_byte_path (string_new p)"
proof -
  assume a: "list_all single_byte p"
  then have "\<forall>c \<in> set p. c \<noteq> NUL" by (simp add: list_all_iff single_byte_def)
  then have "c_str p = p" by (simp add: c_str_def)
  with a show ?thesis
    by (simp add: single_byte_path_def string_new_def string_new_len_def count_single_byte)
qed

lemma string_equals_bytes: "string_equals a b \<longleftrightarrow> data a = data b"
  by (auto simp: string_equals_def)

lemma string_begins_with_bytes:
  assumes "single_byte_path p" and "char_len t = count_utf8_chars (data t)"
  shows "string_begins_with t p \<longleftrightarrow> take (length (data p)) (data t) = data p"
proof
  assume "string_begins_with t p"
  with assms(1) show "take (length (data p)) (data t) = data p"
    by (simp add: string_begins_with_def string_length_def single_byte_path_def
        split: if_splits)
next
  assume pre: "take (length (data p)) (data t) = data p"
  from assms(1) have "list_all single_byte (data p)" by (simp add: single_byte_path_def)
  from count_single_byte_prefix [OF this pre] assms pre
  show "string_begins_with t p"
    by (simp add: string_begins_with_def string_length_def single_byte_path_def)
qed

lemma route_loop_refines_spec:
  assumes "http_method (request_line rq) \<noteq> HTTP_UNKNOWN"
    and "char_len (target (request_line rq)) = count_utf8_chars (data (target (request_line rq)))"
    and "list_all (\<lambda>route. single_byte_path (path route)) routes"
  shows "route_loop routes rq rs = spec_route routes rq rs"
  using assms(3)
proof (induction routes)
  case Nil
  show ?case by (simp add: spec_route_def HTTP_404_def)
next
  case (Cons r routes)
  then have p: "single_byte_path (path r)"
    and rest: "route_loop routes rq rs = spec_route routes rq rs"
    by simp_all
  have "spec_route_matches r rq \<longleftrightarrow>
      IN_METHODS (methods r) (http_method (request_line rq))
      \<and> (if exact_only r then string_equals (path r) (target (request_line rq))
         else string_begins_with (target (request_line rq)) (path r))"
    by (simp add: spec_route_matches_def IN_METHODS_known [OF assms(1)]
        string_equals_bytes string_begins_with_bytes [OF p assms(2)])
  with rest show ?case by (auto simp: spec_route_def)
qed

lemma string_substring_char_len:
  "char_len (string_substring str start len)
     = count_utf8_chars (data (string_substring str start len))"
  by (simp add: string_substring_def string_new_len_def string_new_empty_def)

lemma get_files_readme_runs_first:
  assumes "http_method (request_line rq) = HTTP_GET"
    and "target (request_line rq) = string_new ''/files/readme''"
  shows "router_route
           (Some (router_add_route
                    (router_add_route [] ''/files''
                       (method_value HTTP_GET OR method_value HTTP_POST) h1 False)
                    ''/files/readme'' (method_value HTTP_GET) h2 True))
           (Some rq) (Some rs)
         = (True, Some (fst (h1 rq rs)), Some (snd (h1 rq rs)))"
proof -
  have "string_begins_with (string_new ''/files/readme'') (string_new ''/files'')"
    by (simp add: string_defs)
  with assms show ?thesis
    by (simp add: router_route_def router_add_route_def IN_METHODS_def)
qed

lemma begins_with_counts_characters:
  "string_begins_with (string_new [CHR ''/'', CHR 0xC3, CHR 0xA0])
     (string_new [CHR ''/'', CHR 0xC3, CHR 0xA9])
   \<and> take (length (data (string_new [CHR ''/'', CHR 0xC3, CHR 0xA9])))
        (data (string_new [CHR ''/'', CHR 0xC3, CHR 0xA0]))
      \<noteq> data (string_new [CHR ''/'', CHR 0xC3, CHR 0xA9])"
  by (simp add: string_defs)

lemma router_route_refines_spec:
  assumes "http_method (request_line rq) \<noteq> HTTP_UNKNOWN"
    and "char_len (target (request_line rq)) = count_utf8_chars (data (target (request_line rq)))"
    and "list_all (\<lambda>route. single_byte_path (path route)) routes"
  shows "router_route (Some routes) (Some rq) (Some rs)
         = (fst (spec_route routes rq rs),
            Some (fst (snd (spec_route routes rq rs))),
            Some (snd (snd (spec_route routes rq rs))))"
  by (simp add: router_route_def route_loop_refines_spec [OF assms])

lemma builtin_paths_single_byte:
  "list_all (\<lambda>route. single_byte_path (path route))
     (router (http_server_add_builtins gz http_server_init verbose))"
  by (simp add: http_server_add_builtins_def http_server_init_def router_add_route_def
      single_byte_path_def single_byte_def string_defs)

lemma parse_loop_brew_files:
  "parse_loop http_request_new (string_new (''BREW /files/readme HTTP/1.1'' @ CRLF @ CRLF)) 0
   = (\<lparr>request_line =
        \<lparr>http_method = HTTP_UNKNOWN, target = \<lparr>data = ''/files/readme'', char_len = 13\<rparr>,
         version = HTTP_1_1\<rparr>,
      req_headers = [],
      req_body = \<lparr>data = [], char_len = 0\<rparr>\<rparr>, 31)"
  by (simp add: http_request_new_def parse_loop.simps parse_line_unfold
      parse_method_def parse_version_def string_defs)

lemma parse_brew_files:
  "http_request_parse (Some http_request_new)
     (Some (string_new (''BREW /files/readme HTTP/1.1'' @ CRLF @ CRLF)))
   = (True,
      Some \<lparr>request_line =
              \<lparr>http_method = HTTP_UNKNOWN, target = string_new ''/files/readme'',
               version = HTTP_1_1\<rparr>,
            req_headers = [], req_body = string_new []\<rparr>)"
  unfolding http_request_parse_Some parse_loop_brew_files
  by (simp add: string_defs)

text \<open>
  Claim C6 does not hold of the code. With the claim's own routes, \<open>/files\<close> (GET or POST,
  prefix match, handler \<open>h1\<close>) registered before \<open>/files/readme\<close> (GET, exact match,
  handler \<open>h2\<close>), the request \<open>BREW /files/readme HTTP/1.1\<close> is parsed with method
  \<open>HTTP_UNKNOWN\<close>. No route matches it by the specification's condition, whose router
  answers false with status 404; \<open>router_route\<close> answers true and runs \<open>h1\<close>. This is the
  defect of claim C7, seen from the router's contract.
\<close>

theorem unknown_method_takes_first_route:
  "http_request_parse (Some http_request_new)
     (Some (string_new (''BREW /files/readme HTTP/1.1'' @ CRLF @ CRLF)))
   = (True,
      Some \<lparr>request_line =
              \<lparr>http_method = HTTP_UNKNOWN, target = string_new ''/files/readme'',
               version = HTTP_1_1\<rparr>,
            req_headers = [], req_body = string_new []\<rparr>)
   \<and> filter
       (\<lambda>route. spec_route_matches route
          \<lparr>request_line =
              \<lparr>http_method = HTTP_UNKNOWN, target = string_new ''/files/readme'',
               version = HTTP_1_1\<rparr>,
            req_headers = [], req_body = string_new []\<rparr>)
       (router_add_route
          (router_add_route [] ''/files''
             (method_value HTTP_GET OR method_value HTTP_POST) h1 False)
          ''/files/readme'' (method_value HTTP_GET) h2 True)
     = []
   \<and> spec_route
       (router_add_route
          (router_add_route [] ''/files''
             (method_value HTTP_GET OR method_value HTTP_POST) h1 False)
          ''/files/readme'' (method_value HTTP_GET) h2 True)
       \<lparr>request_line =
           \<lparr>http_method = HTTP_UNKNOWN, target = string_new ''/files/readme'',
            version = HTTP_1_1\<rparr>,
         req_headers = [], req_body = string_new []\<rparr>
       rs
     = (False,
        \<lparr>request_line =
           \<lparr>http_method = HTTP_UNKNOWN, target = string_new ''/files/readme'',
            version = HTTP_1_1\<rparr>,
         req_headers = [], req_body = string_new []\<rparr>,
        rs\<lparr>status := Some ''HTTP/1.1 404 Not Found''\<rparr>)
   \<and> router_route
       (Some (router_add_route
                (router_add_route [] ''/files''
                   (method_value HTTP_GET OR method_value HTTP_POST) h1 False)
                ''/files/readme'' (method_value HTTP_GET) h2 True))
       (Some \<lparr>request_line =
                \<lparr>http_method = HTTP_UNKNOWN, target = string_new ''/files/readme'',
                 version = HTTP_1_1\<rparr>,
              req_headers = [], req_body = string_new []\<rparr>)
       (Some rs)
     = (True,
        Some (fst (h1 \<lparr>request_line =
                \<lparr>http_method = HTTP_UNKNOWN, target = string_new ''/files/readme'',
                 version = HTTP_1_1\<rparr>,
              req_headers = [], req_body = string_new []\<rparr> rs)),
        Some (snd (h1 \<lparr>request_line =
                \<lparr>http_method = HTTP_UNKNOWN, target = string_new ''/files/readme'',
                 version = HTTP_1_1\<rparr>,
              req_headers = [], req_body = string_new []\<rparr> rs)))"
proof -
  have "string_begins_with (string_new ''/files/readme'') (string_new ''/files'')"
    by (simp add: string_defs)
  then show ?thesis
    unfolding parse_brew_files
    by (simp add: router_route_def router_add_route_def IN_METHODS_def spec_route_def
        spec_route_matches_def mask_members_def HTTP_404_def)
qed

lemma parse_loop_brew:
  "parse_loop http_request_new (string_new (''BREW / HTTP/1.1'' @ CRLF @ CRLF)) 0
   = (\<lparr>request_line =
        \<lparr>http_method = HTTP_UNKNOWN, target = \<lparr>data = ''/'', char_len = 1\<rparr>,
         version = HTTP_1_1\<rparr>,
      req_headers = [],
      req_body = \<lparr>data = [], char_len = 0\<rparr>\<rparr>, 19)"
  by (simp add: http_request_new_def parse_loop.simps parse_line_unfold
      parse_method_def parse_version_def string_defs)

lemma parse_brew:
  "http_request_parse (Some http_request_new)
     (Some (string_new (''BREW / HTTP/1.1'' @ CRLF @ CRLF)))
   = (True,
      Some \<lparr>request_line =
              \<lparr>http_method = HTTP_UNKNOWN, target = string_new ''/'', version = HTTP_1_1\<rparr>,
            req_headers = [], req_body = string_new []\<rparr>)"
  unfolding http_request_parse_Some parse_loop_brew
  by (simp add: string_defs)

text \<open>
  Claim C7 does not hold of the code: \<open>HTTP_UNKNOWN\<close> is 0, and \<open>IN_METHODS\<close> tests
  \<open>(methods & method) == method\<close>, which is true of 0 for every mask. The request
  \<open>BREW / HTTP/1.1\<close> is parsed with method \<open>HTTP_UNKNOWN\<close> and the built-in route \<open>/\<close>,
  registered for GET only, dispatches it to \<open>index_route\<close>, which answers 200.
\<close>

theorem unknown_method_is_dispatched:
  "router_route
     (Some (router (http_server_add_builtins gz http_server_init False)))
     (snd (http_request_parse (Some http_request_new)
             (Some (string_new (''BREW / HTTP/1.1'' @ CRLF @ CRLF)))))
     (Some http_response_new)
   = (True,
      Some \<lparr>request_line =
              \<lparr>http_method = HTTP_UNKNOWN, target = string_new ''/'', version = HTTP_1_1\<rparr>,
            req_headers = [], req_body = string_new []\<rparr>,
      Some (http_response_new\<lparr>status := Some ''HTTP/1.1 200 OK''\<rparr>))"
  unfolding parse_brew
  by (simp add: router_route_def http_server_add_builtins_def http_server_init_def
      router_add_route_def IN_METHODS_def index_route_def HTTP_200_def string_defs)

subsection \<open>Serializer\<close>

text \<open>
  Claim C9 does not hold of the code: with the encoding NONE the body goes through
  \<open>string_append\<close>, which copies up to the first NUL byte only. A response whose body is
  the three bytes \<open>a\<close>, NUL, \<open>b\<close> is sent with the one body byte \<open>a\<close>.
\<close>

theorem body_with_nul_is_truncated:
  "http_response_send
     (Some \<lparr>status = Some ''HTTP/1.1 200 OK'', res_headers = [],
            encoding = COMPRESSION_NONE,
            res_body = string_new_len [CHR ''a'', CHR 0x00, CHR ''b''] 3,
            raw_body = None, raw_body_len = 0\<rparr>) 3 True
   = (True, Some (''HTTP/1.1 200 OK'' @ [CHR 0x0D, CHR 0x0A, CHR 0x0D, CHR 0x0A] @ ''a''))
   \<and> data (string_new_len [CHR ''a'', CHR 0x00, CHR ''b''] 3) = [CHR ''a'', CHR 0x00, CHR ''b'']"
  by (simp add: http_response_send_def response_builder_unfold append_header_def string_defs)

text \<open>
  What the serializer does send, for every response: the status, each header and the
  uncompressed body are written as C strings, that is up to their first NUL byte; the
  compressed body is written with its length.
\<close>

lemma data_string_append_cstr:
  "data (string_append_cstr b s) = data b @ c_str s"
  by (simp add: string_append_cstr_def)

lemma data_foldl_append_header:
  "data (foldl append_header b hs) =
     data b @ concat (map (\<lambda>h. c_str (data (header_key h)) @ c_str '': ''
                               @ c_str (data (header_value h)) @ c_str CRLF) hs)"
  by (induction hs arbitrary: b) (simp_all add: append_header_def data_string_append_cstr)

lemma response_builder_bytes:
  "data (response_builder r) =
     (case status r of None \<Rightarrow> [] | Some s \<Rightarrow> c_str s) @ CRLF
     @ concat (map (\<lambda>h. c_str (data (header_key h)) @ '': ''
                         @ c_str (data (header_value h)) @ CRLF) (res_headers r))
     @ CRLF
     @ (case encoding r of
          COMPRESSION_NONE \<Rightarrow> c_str (data (res_body r))
        | COMPRESSION_GZIP \<Rightarrow>
            (case raw_body r of None \<Rightarrow> [] | Some bs \<Rightarrow> take (raw_body_len r) bs))"
proof -
  have crlf: "c_str CRLF = CRLF" by (simp add: c_str_def CRLF_def NUL_def)
  have sep: "c_str '': '' = '': ''" by (simp add: c_str_def NUL_def)
  have empty: "data string_new_empty = []" by (simp add: string_new_empty_def string_new_len_def)
  have nil: "c_str [] = []" by (simp add: c_str_def)
  show ?thesis
    by (cases "encoding r"; cases "status r"; cases "raw_body r")
       (simp_all add: response_builder_unfold data_foldl_append_header data_string_append_cstr
          string_append_def string_append_bytes_def crlf sep empty nil)
qed

subsection \<open>The content-encoding layer\<close>

text \<open>
  Claim C10. For a request without an \<open>Accept-Encoding\<close> header the content-encoding
  layer returns false and leaves the request and the response as they are. The built-ins
  register it for POST_ROUTE with \<open>can_fail\<close> set, and on a server with the built-in layers
  the POST_ROUTE stage goes on after it: \<open>layers_apply\<close> returns true, with the response
  that the content-length and connection-close layers make of the unmodified one.
\<close>

theorem content_encoding_without_accept:
  "(\<forall>gz request response.
      http_request_get_header request ''Accept-Encoding'' = None \<longrightarrow>
      content_encoding_layer gz request response = (False, request, response))
   \<and> (\<forall>gz verbose.
      \<lparr>layer_name = ''content-encoding'', layer_when = LAYER_POST_ROUTE,
       layer_fn = Some (content_encoding_layer gz), can_fail = True\<rparr>
        \<in> set (layer_ctx (http_server_add_builtins gz http_server_init verbose)))
   \<and> (\<forall>gz verbose request response.
      http_request_get_header request ''Accept-Encoding'' = None \<longrightarrow>
      layers_apply (Some (layer_ctx (http_server_add_builtins gz http_server_init verbose)))
        LAYER_POST_ROUTE (Some request) (Some response)
      = (True, Some request,
         Some (snd (snd (connection_close_layer request
                 (snd (snd (content_length_layer request response))))))))"
proof (intro conjI allI impI)
  fix gz request response
  assume "http_request_get_header request ''Accept-Encoding'' = None"
  then show "content_encoding_layer gz request response = (False, request, response)"
    by (simp add: content_encoding_layer_def)
next
  fix gz verbose
  show "\<lparr>layer_name = ''content-encoding'', layer_when = LAYER_POST_ROUTE,
       layer_fn = Some (content_encoding_layer gz), can_fail = True\<rparr>
        \<in> set (layer_ctx (http_server_add_builtins gz http_server_init verbose))"
    by (simp add: http_server_add_builtins_def http_server_init_def layers_add_def
        c_str_def NUL_def)
next
  fix gz verbose and request :: HttpRequest and response :: HttpResponse
  assume a: "http_request_get_header request ''Accept-Encoding'' = None"
  have cl: "fst (content_length_layer request response)"
    "fst (snd (content_length_layer request response)) = request"
    by (simp_all add: content_length_layer_def)
  have cc: "fst (connection_close_layer request rs)"
    "fst (snd (connection_close_layer request rs)) = request" for rs
    by (simp_all add: connection_close_layer_def split: option.split)
  show "layers_apply (Some (layer_ctx (http_server_add_builtins gz http_server_init verbose)))
        LAYER_POST_ROUTE (Some request) (Some response)
      = (True, Some request,
         Some (snd (snd (connection_close_layer request
                 (snd (snd (content_length_layer request response)))))))"
    using a cl cc
    by (simp add: layers_apply_def http_server_add_builtins_def http_server_init_def
        layers_add_def layer_apply_def content_encoding_layer_def
        logging_layer_preroute_verbose_def logging_layer_postroute_verbose_def
        logging_layer_preroute_basic_def logging_layer_postroute_basic_def
        request_memory_usage_layer_def)
qed

theorem content_encoding_without_accept_witness:
  "content_encoding_layer (\<lambda>s. None) http_request_new http_response_new
     = (False, http_request_new, http_response_new)
   \<and> layers_apply
       (Some (layer_ctx (http_server_add_builtins (\<lambda>s. None) http_server_init False)))
       LAYER_POST_ROUTE (Some http_request_new) (Some http_response_new)
     = (True, Some http_request_new,
        Some (http_response_new\<lparr>res_headers :=
                [\<lparr>header_key = string_new ''Content-Length'',
                  header_value = string_new ''0''\<rparr>]\<rparr>))"
proof -
  have h: "http_request_get_header http_request_new ''Accept-Encoding'' = None"
    by (simp add: http_request_get_header_def http_request_new_def)
  have r: "snd (snd (connection_close_layer http_request_new
                 (snd (snd (content_length_layer http_request_new http_response_new)))))
           = http_response_new\<lparr>res_headers :=
                [\<lparr>header_key = string_new ''Content-Length'',
                  header_value = string_new ''0''\<rparr>]\<rparr>"
    by (simp add: connection_close_layer_def content_length_layer_def
        http_request_get_header_def http_request_new_def http_response_new_def
        string_byte_length_def string_new_empty_def string_new_len_def decimal.simps)
  from content_encoding_without_accept [THEN conjunct1, rule_format, OF h]
    content_encoding_without_accept [THEN conjunct2, THEN conjunct2, rule_format, OF h]
  show ?thesis by (simp add: r)
qed

subsection \<open>Allocation registry\<close>

text \<open>
  The registry is reasoned about through its two lookups, \<open>find_alloc_info\<close> (the spec's
  \<open>describe\<close>) and \<open>find_tag_entry\<close>: each elementary step is characterised by what the
  lookups return after it, and the invariants are preserved step by step.
\<close>

lemmas registry_defs = pmalloc_def prealloc_def pfree_def pfree_tag_def ptag_size_def
  free_tagged_def retag_in_place_def register_allocation_def unregister_allocation_def link_alloc_info_def
  unlink_alloc_info_def store_tag_entry_def store_alloc_info_def create_tag_entry_def
  add_ptr_to_tag_def remove_ptr_from_tag_def find_alloc_info_def find_tag_entry_def
  allocator_init_once_def registry_start_def hash_pointer_def ALLOC_TABLE_INITIAL_SIZE_def
  TAG_TABLE_INITIAL_SIZE_def PTR_LIST_INITIAL_SIZE_def Let_def

subsubsection \<open>Chains\<close>

lemma find_remove_first_other:
  "a \<noteq> b \<Longrightarrow> find (\<lambda>x. k x = a) (remove_first (\<lambda>x. k x = b) xs) = find (\<lambda>x. k x = a) xs"
  by (induction xs) auto

lemma find_remove_first_same:
  "distinct (map k xs) \<Longrightarrow> find (\<lambda>x. k x = b) (remove_first (\<lambda>x. k x = b) xs) = None"
  by (induction xs) (auto simp: find_None_iff image_iff)

lemma set_remove_first_subset: "set (remove_first P xs) \<subseteq> set xs"
  by (induction xs) auto

lemma distinct_remove_first:
  "distinct (map k xs) \<Longrightarrow> distinct (map k (remove_first P xs))"
proof (induction xs)
  case Nil
  then show ?case by simp
next
  case (Cons x xs)
  then show ?case using set_remove_first_subset [of P xs] by auto
qed

lemma map_update_first:
  "(\<And>x. k (f x) = k x) \<Longrightarrow> map k (update_first P f xs) = map k xs"
  by (induction xs) auto

lemma find_update_first:
  "(\<And>x. k (f x) = k x) \<Longrightarrow>
     find (\<lambda>x. k x = a) (update_first (\<lambda>x. k x = b) f xs)
       = (if a = b then map_option f (find (\<lambda>x. k x = b) xs) else find (\<lambda>x. k x = a) xs)"
  by (induction xs) auto

lemma find_key: "find (\<lambda>x. k x = a) xs = Some y \<Longrightarrow> k y = a"
  by (induction xs) (auto split: if_splits)

subsubsection \<open>Pointer lists of tag entries\<close>

lemma first_index_None: "first_index xs p = None \<longleftrightarrow> p \<notin> set xs"
  by (induction xs) auto

lemma first_index_Some:
  "first_index xs p = Some i \<Longrightarrow> i < length xs \<and> xs ! i = p \<and> p \<notin> set (take i xs)"
proof (induction xs arbitrary: i)
  case Nil
  then show ?case by simp
next
  case (Cons x xs)
  show ?case
  proof (cases "x = p")
    case True
    with Cons.prems show ?thesis by simp
  next
    case False
    with Cons.prems obtain j where j: "first_index xs p = Some j" "i = Suc j" by auto
    from Cons.IH [OF j(1)] False j(2) show ?thesis by simp
  qed
qed

lemma swap_remove_set:
  assumes "distinct xs" and "i < length xs"
  shows "set (take (length xs - 1) (if i < length xs - 1 then xs[i := xs ! (length xs - 1)] else xs))
           = set xs - {xs ! i}
         \<and> distinct (take (length xs - 1)
               (if i < length xs - 1 then xs[i := xs ! (length xs - 1)] else xs))"
proof -
  from assms(2) have "xs \<noteq> []" by auto
  then obtain bs l where xs: "xs = bs @ [l]" by (metis rev_exhaust)
  from assms(1) xs have db: "distinct bs" and l: "l \<notin> set bs" by simp_all
  show ?thesis
  proof (cases "i < length bs")
    case True
    then have bi: "bs ! i \<in> set bs" by simp
    with l have ne: "bs ! i \<noteq> l" by auto
    have "set (bs[i := l]) = insert l (set bs - {bs ! i})"
      using db True by (rule set_update_distinct)
    moreover have "distinct (bs[i := l])"
      using db l by (simp add: distinct_list_update)
    ultimately show ?thesis
      using True l ne by (auto simp: xs nth_append list_update_append)
  next
    case False
    with assms(2) xs have "i = length bs" by simp
    then show ?thesis using db l by (auto simp: xs nth_append)
  qed
qed

subsubsection \<open>Tag entries\<close>

lemma entry_tag_remove_ptr [simp]: "entry_tag (remove_ptr_from_tag e p) = entry_tag e"
  by (simp add: remove_ptr_from_tag_def split: option.split)

lemma entry_tag_add_ptr [simp]: "entry_tag (add_ptr_to_tag env e p) = entry_tag e"
  by (simp add: add_ptr_to_tag_def)

lemma remove_ptr_distinct:
  assumes "distinct (entry_ptrs e)"
  shows "set (entry_ptrs (remove_ptr_from_tag e p)) = set (entry_ptrs e) - {p}
         \<and> distinct (entry_ptrs (remove_ptr_from_tag e p))"
proof (cases "first_index (entry_ptrs e) p")
  case None
  then have "p \<notin> set (entry_ptrs e)" by (simp add: first_index_None)
  with None assms show ?thesis by (simp add: remove_ptr_from_tag_def)
next
  case (Some i)
  from first_index_Some [OF Some] have i: "i < length (entry_ptrs e)" "entry_ptrs e ! i = p"
    by simp_all
  from swap_remove_set [OF assms i(1)] i(2) Some show ?thesis
    by (simp add: remove_ptr_from_tag_def)
qed

lemma add_ptr_set:
  "set (entry_ptrs (add_ptr_to_tag env e p)) \<subseteq> insert p (set (entry_ptrs e))"
  by (auto simp: add_ptr_to_tag_def)

lemma add_ptr_distinct:
  "distinct (entry_ptrs e) \<Longrightarrow> p \<notin> set (entry_ptrs e)
     \<Longrightarrow> distinct (entry_ptrs (add_ptr_to_tag env e p))"
  by (simp add: add_ptr_to_tag_def)

lemma add_ptr_grown:
  "grow_ok env \<Longrightarrow> entry_ptrs (add_ptr_to_tag env e p) = entry_ptrs e @ [p]"
  by (simp add: add_ptr_to_tag_def)

subsubsection \<open>The two lookups after an elementary step\<close>

lemma find_alloc_info_unlink:
  assumes "chains_ok st"
  shows "find_alloc_info (unlink_alloc_info p st) q
           = (if q = p then None else find_alloc_info st q)"
proof (cases "find (\<lambda>info. info_ptr info = p)
                (g_alloc_table st (hash_pointer p (g_alloc_table_size st)))")
  case None
  then show ?thesis by (simp add: unlink_alloc_info_def find_alloc_info_def)
next
  case (Some info)
  from assms have d: "distinct (map info_ptr
       (g_alloc_table st (hash_pointer p (g_alloc_table_size st))))"
    by (simp add: chains_ok_def)
  show ?thesis
    using Some find_remove_first_same [OF d, of p]
    by (simp add: unlink_alloc_info_def find_alloc_info_def find_remove_first_other)
qed

lemma find_tag_entry_unlink [simp]:
  "find_tag_entry (unlink_alloc_info p st) t = find_tag_entry st t"
  by (simp add: unlink_alloc_info_def find_tag_entry_def split: option.split)

lemma initialized_unlink [simp]:
  "g_allocator_initialized (unlink_alloc_info p st) = g_allocator_initialized st"
  by (simp add: unlink_alloc_info_def split: option.split)

lemma freed_unlink [simp]: "freed (unlink_alloc_info p st) = freed st"
  by (simp add: unlink_alloc_info_def split: option.split)

lemma chains_ok_unlink:
  "chains_ok st \<Longrightarrow> chains_ok (unlink_alloc_info p st)"
  using set_remove_first_subset [of "\<lambda>info. info_ptr info = p"
      "g_alloc_table st (hash_pointer p (g_alloc_table_size st))"]
  by (auto simp: chains_ok_def unlink_alloc_info_def distinct_remove_first
      split: option.split)

lemma find_alloc_info_store_tag [simp]:
  "find_alloc_info (store_tag_entry t f st) q = find_alloc_info st q"
  by (simp add: store_tag_entry_def find_alloc_info_def)

lemma find_tag_entry_store_tag:
  assumes "\<And>e. entry_tag (f e) = entry_tag e"
  shows "find_tag_entry (store_tag_entry t f st) t'
           = (if t' = t then map_option f (find_tag_entry st t) else find_tag_entry st t')"
  using find_update_first [of entry_tag f, OF assms]
  by (simp add: store_tag_entry_def find_tag_entry_def)

lemma initialized_store_tag [simp]:
  "g_allocator_initialized (store_tag_entry t f st) = g_allocator_initialized st"
  by (simp add: store_tag_entry_def)

lemma freed_store_tag [simp]: "freed (store_tag_entry t f st) = freed st"
  by (simp add: store_tag_entry_def)

lemma chains_ok_store_tag [simp]:
  "chains_ok (store_tag_entry t f st) = chains_ok st"
  by (simp add: chains_ok_def store_tag_entry_def)

lemma find_alloc_info_store_info:
  assumes "\<And>i. info_ptr (f i) = info_ptr i"
  shows "find_alloc_info (store_alloc_info p f st) q
           = (if q = p then map_option f (find_alloc_info st p) else find_alloc_info st q)"
  using find_update_first [of info_ptr f, OF assms]
  by (simp add: store_alloc_info_def find_alloc_info_def)

lemma find_tag_entry_store_info [simp]:
  "find_tag_entry (store_alloc_info p f st) t = find_tag_entry st t"
  by (simp add: store_alloc_info_def find_tag_entry_def)

lemma initialized_store_info [simp]:
  "g_allocator_initialized (store_alloc_info p f st) = g_allocator_initialized st"
  by (simp add: store_alloc_info_def)

lemma chains_ok_placed:
  "chains_ok st \<Longrightarrow> info \<in> set (g_alloc_table st i)
     \<Longrightarrow> info_ptr info \<noteq> 0 \<and> hash_pointer (info_ptr info) (g_alloc_table_size st) = i"
  unfolding chains_ok_def by blast

lemma set_map_update_first:
  "(\<And>x. k (f x) = k x) \<Longrightarrow> y \<in> set (update_first P f xs) \<Longrightarrow> k y \<in> k ` set xs"
  by (induction xs) (auto split: if_splits)

lemma chains_ok_store_info:
  assumes "\<And>i. info_ptr (f i) = info_ptr i" and "chains_ok st"
  shows "chains_ok (store_alloc_info p f st)"
  unfolding chains_ok_def
proof (intro conjI allI ballI)
  from assms(2) show "0 < g_alloc_table_size (store_alloc_info p f st)"
    by (simp add: chains_ok_def store_alloc_info_def)
next
  fix i
  from assms(2) map_update_first [of info_ptr f, OF assms(1)]
  show "distinct (map info_ptr (g_alloc_table (store_alloc_info p f st) i))"
    by (simp add: chains_ok_def store_alloc_info_def)
next
  fix i info
  assume a: "info \<in> set (g_alloc_table (store_alloc_info p f st) i)"
  have "info_ptr info \<in> info_ptr ` set (g_alloc_table st i)"
  proof (cases "i = hash_pointer p (g_alloc_table_size st)")
    case True
    with a have "info \<in> set (update_first (\<lambda>info. info_ptr info = p) f (g_alloc_table st i))"
      by (simp add: store_alloc_info_def)
    from set_map_update_first [of info_ptr f, OF assms(1) this] show ?thesis .
  next
    case False
    with a show ?thesis by (simp add: store_alloc_info_def)
  qed
  then obtain old where "old \<in> set (g_alloc_table st i)" "info_ptr old = info_ptr info"
    by auto
  from chains_ok_placed [OF assms(2) this(1)] this(2)
  have "info_ptr info \<noteq> 0 \<and> hash_pointer (info_ptr info) (g_alloc_table_size st) = i"
    by simp
  then show "info_ptr info \<noteq> 0"
    and "hash_pointer (info_ptr info) (g_alloc_table_size (store_alloc_info p f st)) = i"
    by (simp_all add: store_alloc_info_def)
qed

lemma find_alloc_info_create [simp]:
  "find_alloc_info (snd (create_tag_entry env t st)) q = find_alloc_info st q"
  by (simp add: create_tag_entry_def find_alloc_info_def)

lemma find_tag_entry_create:
  "g_allocator_initialized st \<Longrightarrow>
   find_tag_entry (snd (create_tag_entry env t st)) t'
     = (if fst (create_tag_entry env t st) \<and> t' = t
        then Some \<lparr>entry_tag = t, entry_ptrs = [], entry_capacity = PTR_LIST_INITIAL_SIZE\<rparr>
        else find_tag_entry st t')"
  by (simp add: create_tag_entry_def find_tag_entry_def)

lemma fst_create: "fst (create_tag_entry env t st) \<longleftrightarrow> entry_ok env \<and> ptrs_ok env"
  by (simp add: create_tag_entry_def)

lemma initialized_create [simp]:
  "g_allocator_initialized (snd (create_tag_entry env t st)) = g_allocator_initialized st"
  by (simp add: create_tag_entry_def)

lemma freed_create [simp]: "freed (snd (create_tag_entry env t st)) = freed st"
  by (simp add: create_tag_entry_def)

lemma chains_ok_create [simp]:
  "chains_ok (snd (create_tag_entry env t st)) = chains_ok st"
  by (simp add: chains_ok_def create_tag_entry_def)

subsubsection \<open>Unregistering\<close>

lemma find_alloc_info_chain:
  "find_alloc_info st p = Some info \<Longrightarrow>
     p \<noteq> 0 \<and> g_allocator_initialized st
     \<and> find (\<lambda>info. info_ptr info = p)
          (g_alloc_table st (hash_pointer p (g_alloc_table_size st))) = Some info"
  by (simp add: find_alloc_info_def split: if_splits)

lemma find_alloc_info_ptr: "find_alloc_info st p = Some info \<Longrightarrow> info_ptr info = p"
  by (auto simp: find_alloc_info_def split: if_splits dest: find_key [of info_ptr])

lemma find_tag_entry_tag: "find_tag_entry st t = Some entry \<Longrightarrow> entry_tag entry = t"
  by (auto simp: find_tag_entry_def split: if_splits dest: find_key [of entry_tag])

lemma unregister_unknown:
  "g_allocator_initialized st \<Longrightarrow> find_alloc_info st p = None
     \<Longrightarrow> unregister_allocation p st = (None, st)"
  by (simp add: unregister_allocation_def find_alloc_info_def split: if_splits)

lemma unregister_known:
  assumes "find_alloc_info st p = Some info"
  shows "unregister_allocation p st =
           (Some info,
            (case find_tag_entry st (info_tag info) of
               None \<Rightarrow> unlink_alloc_info p st
             | Some tag_e \<Rightarrow>
                 store_tag_entry (info_tag info) (\<lambda>entry. remove_ptr_from_tag entry p)
                   (unlink_alloc_info p st)))"
  using find_alloc_info_chain [OF assms] by (simp add: unregister_allocation_def)

lemma unregister_lookup:
  assumes "chains_ok st" and "find_alloc_info st p = Some info"
  shows "find_alloc_info (snd (unregister_allocation p st)) q
           = (if q = p then None else find_alloc_info st q)"
    and "find_tag_entry (snd (unregister_allocation p st)) t
           = (if t = info_tag info
              then map_option (\<lambda>entry. remove_ptr_from_tag entry p) (find_tag_entry st t)
              else find_tag_entry st t)"
    and "chains_ok (snd (unregister_allocation p st))"
    and "g_allocator_initialized (snd (unregister_allocation p st))"
    and "freed (snd (unregister_allocation p st)) = freed st"
  using assms find_alloc_info_chain [OF assms(2)]
  by (auto simp: unregister_known find_alloc_info_unlink find_tag_entry_store_tag
      chains_ok_unlink split: option.split)

lemma unregister_inv:
  assumes inv: "registry_inv st" and known: "find_alloc_info st p = Some info"
  shows "registry_inv (snd (unregister_allocation p st))"
proof -
  let ?st' = "snd (unregister_allocation p st)"
  from inv have cd: "chains_ok st" and gs: "groups_sound st"
    by (simp_all add: registry_inv_def)
  note lk = unregister_lookup [OF cd known]
  have "groups_sound ?st'"
    unfolding groups_sound_def
  proof (intro allI impI)
    fix t entry'
    assume e': "find_tag_entry ?st' t = Some entry'"
    show "distinct (entry_ptrs entry')
        \<and> (\<forall>q \<in> set (entry_ptrs entry').
              \<exists>iq. find_alloc_info ?st' q = Some iq \<and> info_tag iq = t)"
    proof (cases "t = info_tag info")
      case True
      with e' lk(2) obtain entry where
        e: "find_tag_entry st t = Some entry" and ee: "entry' = remove_ptr_from_tag entry p"
        by auto
      from gs e have d: "distinct (entry_ptrs entry)"
        and m: "\<forall>q \<in> set (entry_ptrs entry). \<exists>iq. find_alloc_info st q = Some iq \<and> info_tag iq = t"
        by (auto simp: groups_sound_def)
      from remove_ptr_distinct [OF d, of p] m show ?thesis
        by (auto simp: ee lk(1))
    next
      case False
      with e' lk(2) have e: "find_tag_entry st t = Some entry'" by simp
      from gs e have d: "distinct (entry_ptrs entry')"
        and m: "\<forall>q \<in> set (entry_ptrs entry'). \<exists>iq. find_alloc_info st q = Some iq \<and> info_tag iq = t"
        by (auto simp: groups_sound_def)
      have "q \<noteq> p" if "q \<in> set (entry_ptrs entry')" for q
        using m that known False by auto
      with d m show ?thesis by (auto simp: lk(1))
    qed
  qed
  with lk(3,4) show ?thesis by (simp add: registry_inv_def)
qed

lemma unregister_full:
  assumes full: "registry_full st" and known: "find_alloc_info st p = Some info"
  shows "registry_full (snd (unregister_allocation p st))"
proof -
  let ?st' = "snd (unregister_allocation p st)"
  from full have inv: "registry_inv st" and gc: "groups_complete st"
    by (simp_all add: registry_full_def)
  from inv have cd: "chains_ok st" and gs: "groups_sound st"
    by (simp_all add: registry_inv_def)
  note lk = unregister_lookup [OF cd known]
  have "groups_complete ?st'"
    unfolding groups_complete_def
  proof (intro allI impI)
    fix q iq
    assume "find_alloc_info ?st' q = Some iq"
    with lk(1) have qp: "q \<noteq> p" and iq: "find_alloc_info st q = Some iq"
      by (auto split: if_splits)
    from gc iq obtain entry where
      e: "find_tag_entry st (info_tag iq) = Some entry" and q: "q \<in> set (entry_ptrs entry)"
      by (auto simp: groups_complete_def)
    from gs e have d: "distinct (entry_ptrs entry)" by (auto simp: groups_sound_def)
    from remove_ptr_distinct [OF d, of p] q qp
    have "q \<in> set (entry_ptrs (remove_ptr_from_tag entry p))" by simp
    with e q show "\<exists>entry. find_tag_entry ?st' (info_tag iq) = Some entry
                     \<and> q \<in> set (entry_ptrs entry)"
      by (auto simp: lk(2))
  qed
  with unregister_inv [OF inv known] show ?thesis by (simp add: registry_full_def)
qed

subsubsection \<open>Releasing one address and a whole tag\<close>

lemma init_once_initialized [simp]:
  "g_allocator_initialized st \<Longrightarrow> allocator_init_once st = st"
  by (simp add: allocator_init_once_def)

lemma registry_inv_initialized: "registry_inv st \<Longrightarrow> g_allocator_initialized st"
  by (simp add: registry_inv_def)

lemma find_alloc_info_freed [simp]:
  "find_alloc_info (st\<lparr>freed := x\<rparr>) q = find_alloc_info st q"
  by (simp add: find_alloc_info_def)

lemma find_tag_entry_freed [simp]:
  "find_tag_entry (st\<lparr>freed := x\<rparr>) t = find_tag_entry st t"
  by (simp add: find_tag_entry_def)

lemma registry_inv_freed [simp]: "registry_inv (st\<lparr>freed := x\<rparr>) = registry_inv st"
  by (simp add: registry_inv_def chains_ok_def groups_sound_def)

lemma registry_full_freed [simp]: "registry_full (st\<lparr>freed := x\<rparr>) = registry_full st"
  by (simp add: registry_full_def groups_complete_def)

lemma free_tagged_lookup:
  assumes "registry_inv st"
  shows "find_alloc_info (free_tagged st p) q = (if q = p then None else find_alloc_info st q)"
    and "registry_inv (free_tagged st p)"
    and "freed (free_tagged st p)
           = (if find_alloc_info st p = None then freed st else freed st @ [p])"
proof -
  from assms have cd: "chains_ok st" by (simp add: registry_inv_def)
  show "find_alloc_info (free_tagged st p) q = (if q = p then None else find_alloc_info st q)"
  proof (cases "find_alloc_info st p")
    case None
    then show ?thesis by (simp add: free_tagged_def)
  next
    case (Some info)
    from unregister_lookup(1) [OF cd Some] Some show ?thesis
      by (simp add: free_tagged_def)
  qed
  show "registry_inv (free_tagged st p)"
  proof (cases "find_alloc_info st p")
    case None
    with assms show ?thesis by (simp add: free_tagged_def)
  next
    case (Some info)
    from unregister_inv [OF assms Some] Some show ?thesis
      by (simp add: free_tagged_def)
  qed
  show "freed (free_tagged st p)
           = (if find_alloc_info st p = None then freed st else freed st @ [p])"
  proof (cases "find_alloc_info st p")
    case None
    then show ?thesis by (simp add: free_tagged_def)
  next
    case (Some info)
    from unregister_lookup(5) [OF cd Some] Some show ?thesis
      by (simp add: free_tagged_def)
  qed
qed

lemma free_tagged_groups:
  assumes "registry_inv st" and "find_tag_entry (free_tagged st p) t = Some entry'"
  shows "\<exists>entry. find_tag_entry st t = Some entry
           \<and> set (entry_ptrs entry') \<subseteq> set (entry_ptrs entry)"
proof (cases "find_alloc_info st p")
  case None
  with assms(2) show ?thesis by (auto simp: free_tagged_def)
next
  case (Some info)
  from assms(1) have cd: "chains_ok st" and gs: "groups_sound st"
    by (simp_all add: registry_inv_def)
  from assms(2) Some
  have e': "find_tag_entry (snd (unregister_allocation p st)) t = Some entry'"
    by (simp add: free_tagged_def)
  show ?thesis
  proof (cases "t = info_tag info")
    case True
    with e' unregister_lookup(2) [OF cd Some, of t]
    have "map_option (\<lambda>entry. remove_ptr_from_tag entry p) (find_tag_entry st t) = Some entry'"
      by simp
    then obtain entry where
      e: "find_tag_entry st t = Some entry" and ee: "entry' = remove_ptr_from_tag entry p"
      by (cases "find_tag_entry st t") auto
    from gs e have "distinct (entry_ptrs entry)" by (auto simp: groups_sound_def)
    from remove_ptr_distinct [OF this, of p] e ee show ?thesis by auto
  next
    case False
    with e' unregister_lookup(2) [OF cd Some, of t] show ?thesis by auto
  qed
qed

lemma foldl_free_tagged:
  assumes "registry_inv st"
  shows "registry_inv (foldl free_tagged st ps)"
    and "find_alloc_info (foldl free_tagged st ps) q
           = (if q \<in> set ps then None else find_alloc_info st q)"
  using assms
proof (induction ps arbitrary: st)
  case Nil
  {
    case 1 then show ?case by simp
  next
    case 2 then show ?case by simp
  }
next
  case (Cons p ps)
  {
    case 1
    from Cons(1) [OF free_tagged_lookup(2) [OF 1]] show ?case by simp
  next
    case 2
    from Cons(2) [OF free_tagged_lookup(2) [OF 2]] free_tagged_lookup(1) [OF 2]
    show ?case by simp
  }
qed

lemma foldl_free_tagged_groups:
  assumes "registry_inv st" and "find_tag_entry (foldl free_tagged st ps) t = Some entry'"
  shows "\<exists>entry. find_tag_entry st t = Some entry
           \<and> set (entry_ptrs entry') \<subseteq> set (entry_ptrs entry)"
  using assms
proof (induction ps arbitrary: st)
  case Nil
  then show ?case by auto
next
  case (Cons p ps)
  from Cons.prems(2) have "find_tag_entry (foldl free_tagged (free_tagged st p) ps) t = Some entry'"
    by simp
  from Cons.IH [OF free_tagged_lookup(2) [OF Cons.prems(1)] this] obtain e1 where
    e1: "find_tag_entry (free_tagged st p) t = Some e1"
    and s1: "set (entry_ptrs entry') \<subseteq> set (entry_ptrs e1)"
    by auto
  from free_tagged_groups [OF Cons.prems(1) e1] s1 show ?case by auto
qed

lemma foldl_free_tagged_freed:
  assumes "registry_inv st"
  shows "\<exists>fs. freed (foldl free_tagged st ps) = freed st @ fs
           \<and> set fs = {p \<in> set ps. find_alloc_info st p \<noteq> None}"
  using assms
proof (induction ps arbitrary: st)
  case Nil
  then show ?case by simp
next
  case (Cons p ps)
  let ?st1 = "free_tagged st p"
  note ft = free_tagged_lookup [OF Cons.prems, where p = p]
  from Cons.IH [OF ft(2)] obtain fs where
    fs: "freed (foldl free_tagged ?st1 ps) = freed ?st1 @ fs"
    and sfs: "set fs = {q \<in> set ps. find_alloc_info ?st1 q \<noteq> None}"
    by auto
  show ?case
  proof (cases "find_alloc_info st p")
    case None
    with fs sfs ft(1,3) show ?thesis by (auto intro!: exI [of _ fs])
  next
    case (Some info)
    with fs sfs ft(1,3) show ?thesis by (auto intro!: exI [of _ "p # fs"])
  qed
qed

lemma ptag_sum_none:
  "\<forall>p \<in> set ps. find_alloc_info st p = None \<Longrightarrow>
     foldl (\<lambda>total_size p.
              case find_alloc_info st p of
                None \<Rightarrow> total_size
              | Some info \<Rightarrow> total_size + info_size info) acc ps = acc"
  by (induction ps arbitrary: acc) simp_all

subsubsection \<open>Registering\<close>

lemma find_alloc_info_link:
  "g_allocator_initialized st \<Longrightarrow>
     find_alloc_info (link_alloc_info info st) q
       = (if q = info_ptr info \<and> q \<noteq> 0 then Some info else find_alloc_info st q)"
  by (simp add: link_alloc_info_def find_alloc_info_def)

lemma find_tag_entry_link [simp]:
  "find_tag_entry (link_alloc_info info st) t = find_tag_entry st t"
  by (simp add: link_alloc_info_def find_tag_entry_def)

lemma initialized_link [simp]:
  "g_allocator_initialized (link_alloc_info info st) = g_allocator_initialized st"
  by (simp add: link_alloc_info_def)

lemma freed_link [simp]: "freed (link_alloc_info info st) = freed st"
  by (simp add: link_alloc_info_def)

lemma find_None_keys: "find (\<lambda>x. k x = a) xs = None \<Longrightarrow> a \<notin> set (map k xs)"
  by (auto simp: find_None_iff)

lemma chains_ok_link:
  assumes "chains_ok st" and "g_allocator_initialized st"
    and "info_ptr info \<noteq> 0" and "find_alloc_info st (info_ptr info) = None"
  shows "chains_ok (link_alloc_info info st)"
proof -
  from assms(2,3,4) have "find (\<lambda>x. info_ptr x = info_ptr info)
      (g_alloc_table st (hash_pointer (info_ptr info) (g_alloc_table_size st))) = None"
    by (simp add: find_alloc_info_def)
  from find_None_keys [OF this] assms(1,3) show ?thesis
    by (auto simp: chains_ok_def link_alloc_info_def)
qed

lemma groups_sound_distinct:
  "groups_sound st \<Longrightarrow> find_tag_entry st t = Some entry \<Longrightarrow> distinct (entry_ptrs entry)"
  unfolding groups_sound_def by blast

lemma groups_sound_member:
  "groups_sound st \<Longrightarrow> find_tag_entry st t = Some entry \<Longrightarrow> p \<in> set (entry_ptrs entry)
     \<Longrightarrow> \<exists>info. find_alloc_info st p = Some info \<and> info_tag info = t"
  unfolding groups_sound_def by blast

lemma register_lookup:
  assumes "g_allocator_initialized st" and "p \<noteq> 0"
  shows "find_alloc_info (register_allocation env p sz t st) q
           = (if info_ok env \<and> q = p
              then Some \<lparr>info_ptr = p, info_size = sz, info_tag = t\<rparr>
              else find_alloc_info st q)"
    and "find_tag_entry (register_allocation env p sz t st) t'
           = (if info_ok env \<and> t' = t then group_after_add env p t (find_tag_entry st t)
              else find_tag_entry st t')"
    and "g_allocator_initialized (register_allocation env p sz t st)"
    and "freed (register_allocation env p sz t st) = freed st"
  using assms
  by (auto simp: register_allocation_def Let_def find_alloc_info_link find_tag_entry_store_tag
      find_tag_entry_create fst_create group_after_add_def split: option.split)

lemma register_chains:
  assumes "chains_ok st" and "g_allocator_initialized st" and "p \<noteq> 0"
    and "find_alloc_info st p = None"
  shows "chains_ok (register_allocation env p sz t st)"
  using chains_ok_link [of st "\<lparr>info_ptr = p, info_size = sz, info_tag = t\<rparr>"] assms
  by (simp add: register_allocation_def Let_def split: option.split)

lemma group_after_add_Some:
  assumes "group_after_add env p t old = Some entry'"
    and "\<And>entry. old = Some entry \<Longrightarrow> distinct (entry_ptrs entry) \<and> p \<notin> set (entry_ptrs entry)"
  shows "distinct (entry_ptrs entry')
         \<and> set (entry_ptrs entry')
             \<subseteq> insert p (case old of None \<Rightarrow> {} | Some entry \<Rightarrow> set (entry_ptrs entry))"
proof (cases old)
  case None
  with assms(1) have "entry' = add_ptr_to_tag env
      \<lparr>entry_tag = t, entry_ptrs = [], entry_capacity = PTR_LIST_INITIAL_SIZE\<rparr> p"
    by (simp add: group_after_add_def split: if_splits)
  with None show ?thesis
    using add_ptr_set [of env "\<lparr>entry_tag = t, entry_ptrs = [],
        entry_capacity = PTR_LIST_INITIAL_SIZE\<rparr>" p]
    by (simp add: add_ptr_distinct)
next
  case (Some entry)
  with assms(1) have "entry' = add_ptr_to_tag env entry p" by (simp add: group_after_add_def)
  with Some assms(2) [OF Some] add_ptr_set [of env entry p] show ?thesis
    by (simp add: add_ptr_distinct)
qed

lemma group_after_add_all_ok:
  assumes "entry_ok env" "ptrs_ok env" "grow_ok env"
  shows "\<exists>entry'. group_after_add env p t old = Some entry'
           \<and> set (entry_ptrs entry')
               = insert p (case old of None \<Rightarrow> {} | Some entry \<Rightarrow> set (entry_ptrs entry))"
  using assms by (cases old) (simp_all add: group_after_add_def add_ptr_grown)

lemma register_inv:
  assumes inv: "registry_inv st" and nz: "p \<noteq> 0" and fresh: "find_alloc_info st p = None"
  shows "registry_inv (register_allocation env p sz t st)"
proof -
  let ?st' = "register_allocation env p sz t st"
  from inv have ini: "g_allocator_initialized st" and cd: "chains_ok st"
    and gs: "groups_sound st"
    by (simp_all add: registry_inv_def)
  note lk = register_lookup [OF ini nz, of env sz t]
  have notin: "p \<notin> set (entry_ptrs entry)" if "find_tag_entry st t' = Some entry" for t' entry
  proof
    assume "p \<in> set (entry_ptrs entry)"
    from groups_sound_member [OF gs that this] fresh show False by simp
  qed
  have "groups_sound ?st'"
    unfolding groups_sound_def
  proof (intro allI impI)
    fix t' entry'
    assume e': "find_tag_entry ?st' t' = Some entry'"
    show "distinct (entry_ptrs entry')
        \<and> (\<forall>q \<in> set (entry_ptrs entry').
              \<exists>iq. find_alloc_info ?st' q = Some iq \<and> info_tag iq = t')"
    proof (cases "info_ok env \<and> t' = t")
      case True
      with e' lk(2) have ga: "group_after_add env p t (find_tag_entry st t) = Some entry'"
        by simp
      have old: "distinct (entry_ptrs entry) \<and> p \<notin> set (entry_ptrs entry)"
        if "find_tag_entry st t = Some entry" for entry
        using groups_sound_distinct [OF gs that] notin [OF that] by simp
      from group_after_add_Some [OF ga old]
      have d: "distinct (entry_ptrs entry')"
        and sub: "set (entry_ptrs entry') \<subseteq> insert p
            (case find_tag_entry st t of None \<Rightarrow> {} | Some entry \<Rightarrow> set (entry_ptrs entry))"
        by simp_all
      have "\<exists>iq. find_alloc_info ?st' q = Some iq \<and> info_tag iq = t'"
        if q: "q \<in> set (entry_ptrs entry')" for q
      proof (cases "q = p")
        case True
        with \<open>info_ok env \<and> t' = t\<close> show ?thesis by (simp add: lk(1))
      next
        case False
        with q sub obtain entry where "find_tag_entry st t = Some entry"
          and "q \<in> set (entry_ptrs entry)"
          by (cases "find_tag_entry st t") auto
        from groups_sound_member [OF gs this]
        obtain iq where "find_alloc_info st q = Some iq" "info_tag iq = t"
          by auto
        with False \<open>info_ok env \<and> t' = t\<close> show ?thesis by (simp add: lk(1))
      qed
      with d show ?thesis by simp
    next
      case False
      with e' lk(2) have e: "find_tag_entry st t' = Some entry'" by auto
      have d: "distinct (entry_ptrs entry')" by (rule groups_sound_distinct [OF gs e])
      have m: "\<forall>q \<in> set (entry_ptrs entry'). \<exists>iq. find_alloc_info st q = Some iq \<and> info_tag iq = t'"
        using groups_sound_member [OF gs e] by blast
      have "q \<noteq> p" if "q \<in> set (entry_ptrs entry')" for q
        using notin [OF e] that by auto
      with d m show ?thesis by (auto simp: lk(1))
    qed
  qed
  moreover have "chains_ok ?st'" by (rule register_chains [OF cd ini nz fresh])
  ultimately show ?thesis using lk(3) by (simp add: registry_inv_def)
qed

lemma register_full:
  assumes full: "registry_full st" and nz: "p \<noteq> 0" and fresh: "find_alloc_info st p = None"
    and ok: "info_ok env" "entry_ok env" "ptrs_ok env" "grow_ok env"
  shows "registry_full (register_allocation env p sz t st)"
proof -
  let ?st' = "register_allocation env p sz t st"
  from full have inv: "registry_inv st" and gc: "groups_complete st"
    by (simp_all add: registry_full_def)
  from inv have ini: "g_allocator_initialized st" by (simp add: registry_inv_def)
  note lk = register_lookup [OF ini nz, of env sz t]
  from group_after_add_all_ok [OF ok(2,3,4), of p t "find_tag_entry st t"] obtain entry' where
    ga: "group_after_add env p t (find_tag_entry st t) = Some entry'"
    and se: "set (entry_ptrs entry')
        = insert p (case find_tag_entry st t of None \<Rightarrow> {} | Some entry \<Rightarrow> set (entry_ptrs entry))"
    by auto
  have "groups_complete ?st'"
    unfolding groups_complete_def
  proof (intro allI impI)
    fix q iq
    assume a: "find_alloc_info ?st' q = Some iq"
    show "\<exists>entry. find_tag_entry ?st' (info_tag iq) = Some entry \<and> q \<in> set (entry_ptrs entry)"
    proof (cases "q = p")
      case True
      with a ok(1) lk(1) have "info_tag iq = t" by auto
      with True ok(1) ga se show ?thesis by (simp add: lk(2))
    next
      case False
      with a lk(1) have iq: "find_alloc_info st q = Some iq" by simp
      with gc obtain entry where
        e: "find_tag_entry st (info_tag iq) = Some entry" and q: "q \<in> set (entry_ptrs entry)"
        by (auto simp: groups_complete_def)
      show ?thesis
      proof (cases "info_tag iq = t")
        case True
        with e q ok(1) ga se show ?thesis by (simp add: lk(2))
      next
        case False
        with e q show ?thesis by (simp add: lk(2))
      qed
    qed
  qed
  with register_inv [OF inv nz fresh] show ?thesis by (simp add: registry_full_def)
qed

subsubsection \<open>The start state and \<open>pmalloc\<close>\<close>

lemma registry_full_start: "registry_full (allocator_init_once registry_start)"
  by (simp add: registry_full_def registry_inv_def chains_ok_def groups_sound_def
      groups_complete_def allocator_init_once_def registry_start_def find_tag_entry_def
      find_alloc_info_def ALLOC_TABLE_INITIAL_SIZE_def)

lemma pmalloc_full:
  assumes "registry_full st" and "find_alloc_info st (user_block env) = None"
    and "info_ok env" "entry_ok env" "ptrs_ok env" "grow_ok env"
  shows "registry_full (snd (pmalloc env sz t st))"
proof -
  from assms(1) have "g_allocator_initialized st"
    by (simp add: registry_full_def registry_inv_def)
  with assms register_full [of st "user_block env" env sz t] show ?thesis
    by (simp add: pmalloc_def)
qed

lemma pmalloc_inv:
  assumes "registry_inv st" and "find_alloc_info st (user_block env) = None"
  shows "registry_inv (snd (pmalloc env sz t st))"
proof -
  from assms(1) have "g_allocator_initialized st" by (simp add: registry_inv_def)
  with assms register_inv [of st "user_block env" env sz t] show ?thesis
    by (simp add: pmalloc_def)
qed

subsubsection \<open>Counting\<close>

lemma count_unlink:
  "g_alloc_count (unlink_alloc_info p st)
     = (if find (\<lambda>info. info_ptr info = p)
             (g_alloc_table st (hash_pointer p (g_alloc_table_size st))) = None
        then g_alloc_count st else g_alloc_count st - 1)"
  by (simp add: unlink_alloc_info_def split: option.split)

lemma count_store_tag [simp]: "g_alloc_count (store_tag_entry t f st) = g_alloc_count st"
  by (simp add: store_tag_entry_def)

lemma unregister_count:
  assumes "find_alloc_info st p = Some info"
  shows "g_alloc_count (snd (unregister_allocation p st)) = g_alloc_count st - 1"
  using find_alloc_info_chain [OF assms]
  by (simp add: unregister_known [OF assms] count_unlink split: option.split)

lemma free_tagged_count:
  "g_alloc_count (free_tagged st p)
     = (if find_alloc_info st p = None then g_alloc_count st else g_alloc_count st - 1)"
  by (auto simp: free_tagged_def unregister_count)

lemma free_tagged_full:
  assumes "registry_full st"
  shows "registry_full (free_tagged st p)"
proof (cases "find_alloc_info st p")
  case None
  with assms show ?thesis by (simp add: free_tagged_def)
next
  case (Some info)
  from unregister_full [OF assms Some] Some show ?thesis by (simp add: free_tagged_def)
qed

lemma foldl_free_tagged_full:
  "registry_full st \<Longrightarrow> registry_full (foldl free_tagged st ps)"
  by (induction ps arbitrary: st) (simp_all add: free_tagged_full)

lemma foldl_free_tagged_log:
  assumes "registry_inv st"
  shows "\<exists>fs. freed (foldl free_tagged st ps) = freed st @ fs
           \<and> distinct fs
           \<and> set fs = {p \<in> set ps. find_alloc_info st p \<noteq> None}
           \<and> g_alloc_count (foldl free_tagged st ps) = g_alloc_count st - of_nat (length fs)"
  using assms
proof (induction ps arbitrary: st)
  case Nil
  then show ?case by simp
next
  case (Cons p ps)
  let ?st1 = "free_tagged st p"
  note ft = free_tagged_lookup [OF Cons.prems, where p = p]
  from Cons.IH [OF ft(2)] obtain fs where
    fs: "freed (foldl free_tagged ?st1 ps) = freed ?st1 @ fs"
    and dfs: "distinct fs"
    and sfs: "set fs = {q \<in> set ps. find_alloc_info ?st1 q \<noteq> None}"
    and cnt: "g_alloc_count (foldl free_tagged ?st1 ps) = g_alloc_count ?st1 - of_nat (length fs)"
    by auto
  from sfs ft(1) have pfs: "p \<notin> set fs" by auto
  show ?case
  proof (cases "find_alloc_info st p")
    case None
    with fs dfs sfs cnt ft(1,3) show ?thesis
      by (auto intro!: exI [of _ fs] simp: free_tagged_count)
  next
    case (Some info)
    with fs dfs sfs cnt ft(1,3) pfs show ?thesis
      by (auto intro!: exI [of _ "p # fs"] simp: free_tagged_count)
  qed
qed

lemma groups_complete_member:
  "groups_complete st \<Longrightarrow> find_alloc_info st p = Some info
     \<Longrightarrow> \<exists>entry. find_tag_entry st (info_tag info) = Some entry \<and> p \<in> set (entry_ptrs entry)"
  unfolding groups_complete_def by blast

subsubsection \<open>Counting records\<close>

lemma length_filter_key:
  "distinct (map k xs) \<Longrightarrow>
     length (filter (\<lambda>x. k x = a) xs) = (if a \<in> k ` set xs then 1 else 0)"
  by (induction xs) (auto simp: image_iff)

lemma find_None_image: "find (\<lambda>x. k x = a) xs = None \<longleftrightarrow> a \<notin> k ` set xs"
  by (auto simp: find_None_iff)

lemma record_count_lookup:
  assumes ok: "chains_ok st" and ini: "g_allocator_initialized st"
  shows "record_count st p = (if find_alloc_info st p = None then 0 else 1)"
proof -
  let ?n = "g_alloc_table_size st"
  let ?h = "hash_pointer p ?n"
  let ?f = "\<lambda>i. length (filter (\<lambda>info. info_ptr info = p) (g_alloc_table st i))"
  from ok have n: "0 < ?n" by (simp add: chains_ok_def)
  then have h: "?h \<in> {..<?n}" by (simp add: hash_pointer_def)
  have other: "?f i = 0" if "i \<noteq> ?h" for i
  proof -
    have "info_ptr info \<noteq> p" if "info \<in> set (g_alloc_table st i)" for info
      using chains_ok_placed [OF ok that] \<open>i \<noteq> ?h\<close> by auto
    then show ?thesis by (simp add: filter_empty_conv)
  qed
  have "record_count st p = (\<Sum>i<?n. if i = ?h then ?f ?h else 0)"
    unfolding record_count_def by (rule sum.cong) (auto simp: other)
  also have "\<dots> = ?f ?h" using h by (simp add: sum.delta)
  finally have rc: "record_count st p = ?f ?h" .
  from ok have d: "distinct (map info_ptr (g_alloc_table st ?h))" by (simp add: chains_ok_def)
  show ?thesis
  proof (cases "p = 0")
    case True
    have "info_ptr info \<noteq> p" if "info \<in> set (g_alloc_table st ?h)" for info
      using chains_ok_placed [OF ok that] True by simp
    then have "?f ?h = 0" by (simp add: filter_empty_conv)
    with rc True show ?thesis by (simp add: find_alloc_info_def)
  next
    case False
    with ini have "find_alloc_info st p
        = find (\<lambda>info. info_ptr info = p) (g_alloc_table st ?h)"
      by (simp add: find_alloc_info_def)
    with rc length_filter_key [OF d, of p] show ?thesis
      by (simp add: find_None_image)
  qed
qed

subsubsection \<open>\<open>prealloc\<close>\<close>

lemma retag_lookup:
  assumes "g_allocator_initialized st" and "t \<noteq> old_tag"
  shows "find_alloc_info (retag_in_place env p old_tag t st) q = find_alloc_info st q"
    and "find_tag_entry (retag_in_place env p old_tag t st) t'
           = (if t' = t then group_after_add env p t (find_tag_entry st t)
              else if t' = old_tag
              then map_option (\<lambda>entry. remove_ptr_from_tag entry p) (find_tag_entry st old_tag)
              else find_tag_entry st t')"
    and "g_allocator_initialized (retag_in_place env p old_tag t st)"
    and "chains_ok (retag_in_place env p old_tag t st) = chains_ok st"
  using assms
  by (auto simp: retag_in_place_def Let_def find_tag_entry_store_tag find_tag_entry_create
      fst_create group_after_add_def split: option.split)

lemma registry_full_views:
  assumes "registry_full s2" and "chains_ok s1" and "g_allocator_initialized s1"
    and "\<And>q. find_alloc_info s1 q = find_alloc_info s2 q"
    and "\<And>t. find_tag_entry s1 t = find_tag_entry s2 t"
  shows "registry_full s1"
  using assms
  by (simp add: registry_full_def registry_inv_def groups_sound_def groups_complete_def)

lemma prealloc_full:
  assumes full: "registry_full st" and known: "find_alloc_info st a = Some info"
    and ok: "info_ok env" "entry_ok env" "ptrs_ok env" "grow_ok env"
    and blk: "user_block env \<noteq> 0"
    and fresh: "user_block env \<noteq> a \<Longrightarrow> find_alloc_info st (user_block env) = None"
  shows "\<exists>st'. prealloc env a sz t st = Inr (user_block env, st')
           \<and> registry_full st'
           \<and> find_alloc_info st' (user_block env)
               = Some \<lparr>info_ptr = user_block env, info_size = sz, info_tag = t\<rparr>
           \<and> (user_block env \<noteq> a \<longrightarrow> find_alloc_info st' a = None)"
proof -
  let ?b = "user_block env"
  from full have inv: "registry_inv st" and gc: "groups_complete st"
    by (simp_all add: registry_full_def)
  from inv have ini: "g_allocator_initialized st" and cok: "chains_ok st"
    and gs: "groups_sound st"
    by (simp_all add: registry_inv_def)
  from find_alloc_info_chain [OF known] have nz: "a \<noteq> 0" by simp
  from find_alloc_info_ptr [OF known] have ptr: "info_ptr info = a" .
  let ?mid = "snd (unregister_allocation a st)"
  note ul = unregister_lookup [OF cok known]
  have midfull: "registry_full ?mid" by (rule unregister_full [OF full known])
  show ?thesis
  proof (cases "?b = a")
    case False
    let ?st' = "register_allocation env ?b sz t ?mid"
    have pr: "prealloc env a sz t st = Inr (?b, ?st')"
      using ini nz known blk False
      by (simp add: prealloc_def unregister_known [OF known] split: option.split)
    have fr: "find_alloc_info ?mid ?b = None" using fresh [OF False] False by (simp add: ul(1))
    have "registry_full ?st'" by (rule register_full [OF midfull blk fr ok])
    moreover note rl = register_lookup [OF ul(4) blk, of env sz t]
    have "find_alloc_info ?st' ?b = Some \<lparr>info_ptr = ?b, info_size = sz, info_tag = t\<rparr>"
      using ok(1) by (simp add: rl(1))
    moreover have "find_alloc_info ?st' a = None" using False by (simp add: rl(1) ul(1))
    ultimately show ?thesis using pr False by simp
  next
    case True
    let ?f = "\<lambda>i. i\<lparr>info_size := sz, info_tag := t\<rparr>"
    have fptr: "\<And>i. info_ptr (?f i) = info_ptr i" by simp
    have finfo: "?f info = \<lparr>info_ptr = a, info_size = sz, info_tag = t\<rparr>"
      using ptr by (cases info) simp
    show ?thesis
    proof (cases "t = info_tag info")
      case same: True
      let ?st' = "store_alloc_info a ?f st"
      have pr: "prealloc env a sz t st = Inr (a, ?st')"
        using ini nz known blk True same by (simp add: prealloc_def)
      have A: "find_alloc_info ?st' q
          = (if q = a then Some \<lparr>info_ptr = a, info_size = sz, info_tag = t\<rparr>
             else find_alloc_info st q)" for q
        using known finfo by (simp add: find_alloc_info_store_info [of ?f, OF fptr])
      have "groups_sound ?st'"
        unfolding groups_sound_def
      proof (intro allI impI)
        fix t' entry
        assume "find_tag_entry ?st' t' = Some entry"
        then have e: "find_tag_entry st t' = Some entry" by simp
        have "\<exists>iq. find_alloc_info ?st' q = Some iq \<and> info_tag iq = t'"
          if q: "q \<in> set (entry_ptrs entry)" for q
        proof -
          from groups_sound_member [OF gs e q] obtain iq where
            iq: "find_alloc_info st q = Some iq" "info_tag iq = t'" by auto
          show ?thesis
          proof (cases "q = a")
            case True
            from iq known same True have "t' = t" by simp
            moreover have "find_alloc_info ?st' a
                = Some \<lparr>info_ptr = a, info_size = sz, info_tag = t\<rparr>"
              by (simp add: A)
            ultimately show ?thesis using True by simp
          next
            case False
            with iq show ?thesis by (simp add: A)
          qed
        qed
        with groups_sound_distinct [OF gs e]
        show "distinct (entry_ptrs entry)
            \<and> (\<forall>q \<in> set (entry_ptrs entry).
                  \<exists>iq. find_alloc_info ?st' q = Some iq \<and> info_tag iq = t')"
          by simp
      qed
      moreover have "groups_complete ?st'"
        unfolding groups_complete_def
      proof (intro allI impI)
        fix q iq
        assume a: "find_alloc_info ?st' q = Some iq"
        show "\<exists>entry. find_tag_entry ?st' (info_tag iq) = Some entry
                \<and> q \<in> set (entry_ptrs entry)"
        proof (cases "q = a")
          case True
          from a True have "Some iq = Some \<lparr>info_ptr = a, info_size = sz, info_tag = t\<rparr>"
            by (simp add: A)
          then have "info_tag iq = t" by auto
          then have "info_tag iq = info_tag info" by (simp only: same)
          with groups_complete_member [OF gc known] True show ?thesis by simp
        next
          case False
          with a have "find_alloc_info st q = Some iq" by (simp add: A)
          from groups_complete_member [OF gc this] show ?thesis by simp
        qed
      qed
      moreover have "chains_ok ?st'" by (rule chains_ok_store_info [OF fptr cok])
      ultimately have "registry_full ?st'"
        using ini by (simp add: registry_full_def registry_inv_def)
      with pr A True show ?thesis by simp
    next
      case differ: False
      let ?r = "retag_in_place env a (info_tag info) t st"
      let ?st' = "store_alloc_info a ?f ?r"
      let ?s2 = "register_allocation env a sz t ?mid"
      have pr: "prealloc env a sz t st = Inr (a, ?st')"
        using ini nz known blk True differ by (simp add: prealloc_def)
      note rt = retag_lookup [OF ini differ, of env a]
      have A: "find_alloc_info ?st' q
          = (if q = a then Some \<lparr>info_ptr = a, info_size = sz, info_tag = t\<rparr>
             else find_alloc_info st q)" for q
        using known finfo by (simp add: find_alloc_info_store_info [of ?f, OF fptr] rt(1))
      have fr: "find_alloc_info ?mid a = None" by (simp add: ul(1))
      have full2: "registry_full ?s2" by (rule register_full [OF midfull nz fr ok])
      note rl = register_lookup [OF ul(4) nz, of env sz t]
      have c1: "chains_ok ?st'"
        using chains_ok_store_info [OF fptr, of ?r a] cok rt(4) by simp
      have i1: "g_allocator_initialized ?st'" using rt(3) by simp
      have vA: "find_alloc_info ?st' q = find_alloc_info ?s2 q" for q
        using ok(1) by (simp add: A rl(1) ul(1))
      have vG: "find_tag_entry ?st' t' = find_tag_entry ?s2 t'" for t'
        using ok(1) differ by (simp add: rt(2) rl(2) ul(2))
      have "registry_full ?st'" by (rule registry_full_views [OF full2 c1 i1 vA vG])
      with pr A True show ?thesis by simp
    qed
  qed
qed

subsubsection \<open>The invariant is kept by every operation\<close>

text \<open>
  \<open>registry_inv\<close> holds in every state the public interface can reach, whatever the library
  answers, as long as \<open>malloc\<close> and \<open>realloc\<close> never return the address of a block that is
  live: it holds after initialisation and is kept by \<open>pmalloc\<close>, \<open>prealloc\<close>, \<open>pfree\<close> and
  \<open>pfree_tag\<close>.
\<close>

lemma registry_inv_views:
  assumes "registry_inv s2" and "chains_ok s1" and "g_allocator_initialized s1"
    and "\<And>q. find_alloc_info s1 q = find_alloc_info s2 q"
    and "\<And>t. find_tag_entry s1 t = find_tag_entry s2 t"
  shows "registry_inv s1"
  using assms by (simp add: registry_inv_def groups_sound_def)

lemma group_after_add_info_ok [simp]:
  "group_after_add (env\<lparr>info_ok := b\<rparr>) p t old = group_after_add env p t old"
  by (simp add: group_after_add_def add_ptr_to_tag_def split: option.split)

lemma resize_in_place_inv:
  assumes inv: "registry_inv st" and known: "find_alloc_info st a = Some info"
  shows "registry_inv
           (store_alloc_info a (\<lambda>i. i\<lparr>info_size := sz, info_tag := info_tag info\<rparr>) st)"
proof -
  let ?f = "\<lambda>i. i\<lparr>info_size := sz, info_tag := info_tag info\<rparr>"
  let ?st' = "store_alloc_info a ?f st"
  from inv have ini: "g_allocator_initialized st" and cok: "chains_ok st"
    and gs: "groups_sound st"
    by (simp_all add: registry_inv_def)
  have fptr: "\<And>i. info_ptr (?f i) = info_ptr i" by simp
  have A: "find_alloc_info ?st' q
      = (if q = a then Some (?f info) else find_alloc_info st q)" for q
    using known by (simp add: find_alloc_info_store_info [of ?f, OF fptr])
  have "groups_sound ?st'"
    unfolding groups_sound_def
  proof (intro allI impI)
    fix t' entry
    assume "find_tag_entry ?st' t' = Some entry"
    then have e: "find_tag_entry st t' = Some entry" by simp
    have "\<exists>iq. find_alloc_info ?st' q = Some iq \<and> info_tag iq = t'"
      if q: "q \<in> set (entry_ptrs entry)" for q
    proof -
      from groups_sound_member [OF gs e q] obtain iq where
        iq: "find_alloc_info st q = Some iq" "info_tag iq = t'" by auto
      show ?thesis
      proof (cases "q = a")
        case True
        from iq known True have tt: "info_tag info = t'" by simp
        have "find_alloc_info ?st' q = Some (?f info)" by (simp only: A True if_True refl)
        moreover have "info_tag (?f info) = t'" using tt by simp
        ultimately show ?thesis by blast
      next
        case False
        with iq show ?thesis by (simp add: A)
      qed
    qed
    with groups_sound_distinct [OF gs e]
    show "distinct (entry_ptrs entry)
        \<and> (\<forall>q \<in> set (entry_ptrs entry).
              \<exists>iq. find_alloc_info ?st' q = Some iq \<and> info_tag iq = t')"
      by simp
  qed
  moreover have "chains_ok ?st'" by (rule chains_ok_store_info [OF fptr cok])
  ultimately show ?thesis using ini by (simp add: registry_inv_def)
qed

lemma prealloc_inv:
  assumes inv: "registry_inv st" and known: "find_alloc_info st a = Some info"
    and fresh: "user_block env \<noteq> a \<Longrightarrow> find_alloc_info st (user_block env) = None"
  shows "\<exists>st'. prealloc env a sz t st = Inr (user_block env, st') \<and> registry_inv st'"
proof -
  let ?b = "user_block env"
  from inv have ini: "g_allocator_initialized st" and cok: "chains_ok st"
    by (simp_all add: registry_inv_def)
  from find_alloc_info_chain [OF known] have nz: "a \<noteq> 0" by simp
  from find_alloc_info_ptr [OF known] have ptr: "info_ptr info = a" .
  let ?mid = "snd (unregister_allocation a st)"
  note ul = unregister_lookup [OF cok known]
  have midinv: "registry_inv ?mid" by (rule unregister_inv [OF inv known])
  have fr: "find_alloc_info ?mid a = None" by (simp add: ul(1))
  consider (null) "?b = 0" | (moved) "?b \<noteq> 0" "?b \<noteq> a"
    | (same) "?b = a" "t = info_tag info" | (retag) "?b = a" "t \<noteq> info_tag info"
    by blast
  then show ?thesis
  proof cases
    case null
    with ini nz known inv show ?thesis by (simp add: prealloc_def)
  next
    case moved
    have "prealloc env a sz t st = Inr (?b, register_allocation env ?b sz t ?mid)"
      using ini nz known moved
      by (simp add: prealloc_def unregister_known [OF known] split: option.split)
    moreover have "find_alloc_info ?mid ?b = None"
      using fresh [OF moved(2)] by (simp add: ul(1))
    from register_inv [OF midinv moved(1) this]
    have "registry_inv (register_allocation env ?b sz t ?mid)" .
    ultimately show ?thesis by simp
  next
    case same
    have "prealloc env a sz t st
        = Inr (a, store_alloc_info a (\<lambda>i. i\<lparr>info_size := sz, info_tag := t\<rparr>) st)"
      using ini nz known same by (simp add: prealloc_def)
    with resize_in_place_inv [OF inv known, of sz] same show ?thesis by simp
  next
    case retag
    let ?f = "\<lambda>i. i\<lparr>info_size := sz, info_tag := t\<rparr>"
    let ?r = "retag_in_place env a (info_tag info) t st"
    let ?st' = "store_alloc_info a ?f ?r"
    let ?s2 = "register_allocation (env\<lparr>info_ok := True\<rparr>) a sz t ?mid"
    have fptr: "\<And>i. info_ptr (?f i) = info_ptr i" by simp
    have finfo: "?f info = \<lparr>info_ptr = a, info_size = sz, info_tag = t\<rparr>"
      using ptr by (cases info) simp
    have pr: "prealloc env a sz t st = Inr (a, ?st')"
      using ini nz known retag by (simp add: prealloc_def)
    note rt = retag_lookup [OF ini retag(2), of env a]
    note rl = register_lookup [OF ul(4) nz, of "env\<lparr>info_ok := True\<rparr>" sz t]
    have inv2: "registry_inv ?s2" by (rule register_inv [OF midinv nz fr])
    have c1: "chains_ok ?st'"
      using chains_ok_store_info [OF fptr, of ?r a] cok rt(4) by simp
    have i1: "g_allocator_initialized ?st'" using rt(3) by simp
    have vA: "find_alloc_info ?st' q = find_alloc_info ?s2 q" for q
      using known finfo
      by (simp add: find_alloc_info_store_info [of ?f, OF fptr] rt(1) rl(1) ul(1))
    have vG: "find_tag_entry ?st' t' = find_tag_entry ?s2 t'" for t'
      using retag(2) by (simp add: rt(2) rl(2) ul(2))
    have "registry_inv ?st'" by (rule registry_inv_views [OF inv2 c1 i1 vA vG])
    with pr retag show ?thesis by simp
  qed
qed

lemma prealloc_refused:
  assumes "g_allocator_initialized st" and "find_alloc_info st a = Some info"
    and "user_block env = 0"
  shows "prealloc env a sz t st = Inr (0, st)"
  using assms find_alloc_info_chain [OF assms(2)] by (simp add: prealloc_def)

lemma pfree_inv:
  assumes "registry_inv st" and "find_alloc_info st a = Some info"
  shows "\<exists>st'. pfree a st = Inr st' \<and> registry_inv st'"
  using assms find_alloc_info_chain [OF assms(2)] unregister_inv [OF assms]
  by (simp add: pfree_def registry_inv_initialized unregister_known)

lemma pfree_tag_inv:
  assumes "registry_inv st"
  shows "registry_inv (pfree_tag env t st)"
  using assms foldl_free_tagged(1) [OF assms]
  by (simp add: pfree_tag_def registry_inv_initialized split: option.split)

lemma prealloc_outcome:
  assumes inv: "registry_inv st" and known: "find_alloc_info st a = Some info"
    and ok: "info_ok env" "entry_ok env" "ptrs_ok env" "grow_ok env"
    and blk: "user_block env \<noteq> 0"
    and fresh: "user_block env \<noteq> a \<Longrightarrow> find_alloc_info st (user_block env) = None"
  shows "\<exists>st'. prealloc env a sz t st = Inr (user_block env, st')
           \<and> registry_inv st'
           \<and> find_alloc_info st' (user_block env)
               = Some \<lparr>info_ptr = user_block env, info_size = sz, info_tag = t\<rparr>
           \<and> (\<forall>q. q \<noteq> a \<and> q \<noteq> user_block env
                  \<longrightarrow> find_alloc_info st' q = find_alloc_info st q)
           \<and> (user_block env \<noteq> a \<longrightarrow> find_alloc_info st' a = None)
           \<and> (user_block env \<noteq> a \<or> t \<noteq> info_tag info \<longrightarrow>
                 (\<exists>entry. find_tag_entry st' t = Some entry
                    \<and> user_block env \<in> set (entry_ptrs entry)))
           \<and> (user_block env = a \<and> t = info_tag info \<longrightarrow>
                 (\<forall>t'. find_tag_entry st' t' = find_tag_entry st t'))"
proof -
  let ?b = "user_block env"
  from inv have ini: "g_allocator_initialized st" and cok: "chains_ok st"
    by (simp_all add: registry_inv_def)
  from find_alloc_info_chain [OF known] have nz: "a \<noteq> 0" by simp
  from find_alloc_info_ptr [OF known] have ptr: "info_ptr info = a" .
  let ?mid = "snd (unregister_allocation a st)"
  note ul = unregister_lookup [OF cok known]
  from prealloc_inv [OF inv known fresh, of sz t] obtain st' where
    pr: "prealloc env a sz t st = Inr (?b, st')" and inv': "registry_inv st'"
    by blast
  from group_after_add_all_ok [OF ok(2,3,4), of ?b t "find_tag_entry ?mid t"]
  have added: "\<exists>entry. group_after_add env ?b t (find_tag_entry ?mid t) = Some entry
                 \<and> ?b \<in> set (entry_ptrs entry)"
    by auto
  consider (moved) "?b \<noteq> a"
    | (same) "?b = a" "t = info_tag info" | (retag) "?b = a" "t \<noteq> info_tag info"
    by blast
  then show ?thesis
  proof cases
    case moved
    let ?s = "register_allocation env ?b sz t ?mid"
    have eq: "prealloc env a sz t st = Inr (?b, ?s)"
      using ini nz known moved blk
      by (simp add: prealloc_def unregister_known [OF known] split: option.split)
    note rl = register_lookup [OF ul(4) blk, of env sz t]
    have "find_alloc_info ?s ?b = Some \<lparr>info_ptr = ?b, info_size = sz, info_tag = t\<rparr>"
      using ok(1) by (simp add: rl(1))
    moreover have "find_alloc_info ?s q = find_alloc_info st q" if "q \<noteq> a \<and> q \<noteq> ?b" for q
      using that by (simp add: rl(1) ul(1))
    moreover have "find_alloc_info ?s a = None" using moved by (simp add: rl(1) ul(1))
    moreover have "\<exists>entry. find_tag_entry ?s t = Some entry \<and> ?b \<in> set (entry_ptrs entry)"
      using added ok(1) by (simp add: rl(2))
    ultimately show ?thesis using pr inv' eq moved by auto
  next
    case same
    let ?f = "\<lambda>i. i\<lparr>info_size := sz, info_tag := t\<rparr>"
    let ?s = "store_alloc_info a ?f st"
    have fptr: "\<And>i. info_ptr (?f i) = info_ptr i" by simp
    have finfo: "?f info = \<lparr>info_ptr = a, info_size = sz, info_tag = t\<rparr>"
      using ptr by (cases info) simp
    have eq: "prealloc env a sz t st = Inr (a, ?s)"
      using ini nz known same by (simp add: prealloc_def)
    have A: "find_alloc_info ?s q
        = (if q = a then Some \<lparr>info_ptr = a, info_size = sz, info_tag = t\<rparr>
           else find_alloc_info st q)" for q
      using known finfo by (simp add: find_alloc_info_store_info [of ?f, OF fptr])
    have G: "find_tag_entry ?s t' = find_tag_entry st t'" for t' by simp
    from pr inv' eq same A G show ?thesis by auto
  next
    case retag
    let ?f = "\<lambda>i. i\<lparr>info_size := sz, info_tag := t\<rparr>"
    let ?r = "retag_in_place env a (info_tag info) t st"
    let ?s = "store_alloc_info a ?f ?r"
    have fptr: "\<And>i. info_ptr (?f i) = info_ptr i" by simp
    have finfo: "?f info = \<lparr>info_ptr = a, info_size = sz, info_tag = t\<rparr>"
      using ptr by (cases info) simp
    have eq: "prealloc env a sz t st = Inr (a, ?s)"
      using ini nz known retag by (simp add: prealloc_def)
    note rt = retag_lookup [OF ini retag(2), of env a]
    have A: "find_alloc_info ?s q
        = (if q = a then Some \<lparr>info_ptr = a, info_size = sz, info_tag = t\<rparr>
           else find_alloc_info st q)" for q
      using known finfo by (simp add: find_alloc_info_store_info [of ?f, OF fptr] rt(1))
    have "find_tag_entry ?mid t = find_tag_entry st t" using retag(2) by (simp add: ul(2))
    with added retag(1)
    have "\<exists>entry. find_tag_entry ?s t = Some entry \<and> a \<in> set (entry_ptrs entry)"
      by (simp add: rt(2))
    with pr inv' eq retag A show ?thesis by auto
  qed
qed

subsubsection \<open>A registry holding one block\<close>

text \<open>
  The registry after the first \<open>pmalloc(16, tag)\<close> of the process, with the tag at address 7
  and the block placed at \<open>0x1000\<close>, every library request having been granted.
\<close>

lemma init_once_idem [simp]:
  "allocator_init_once (allocator_init_once st) = allocator_init_once st"
  by (simp add: allocator_init_once_def)

lemma pmalloc_init_once: "pmalloc env sz t (allocator_init_once st) = pmalloc env sz t st"
  by (simp add: pmalloc_def)

lemma example_registry_full:
  "registry_full
     (snd (pmalloc \<lparr>user_block = 0x1000, info_ok = True, entry_ok = True, ptrs_ok = True,
                    grow_ok = True, scratch_ok = True\<rparr> 16 7 registry_start))"
proof -
  have "registry_full
     (snd (pmalloc \<lparr>user_block = 0x1000, info_ok = True, entry_ok = True, ptrs_ok = True,
                    grow_ok = True, scratch_ok = True\<rparr> 16 7
             (allocator_init_once registry_start)))"
    by (rule pmalloc_full [OF registry_full_start])
      (simp_all add: find_alloc_info_def allocator_init_once_def registry_start_def)
  then show ?thesis by (simp only: pmalloc_init_once)
qed

lemma example_registry_lookup:
  "find_alloc_info
     (snd (pmalloc \<lparr>user_block = 0x1000, info_ok = True, entry_ok = True, ptrs_ok = True,
                    grow_ok = True, scratch_ok = True\<rparr> 16 7 registry_start)) 0x1000
   = Some \<lparr>info_ptr = 0x1000, info_size = 16, info_tag = 7\<rparr>"
  by (simp add: registry_defs drop_bit_eq_div)

lemma example_registry_fresh:
  "find_alloc_info
     (snd (pmalloc \<lparr>user_block = 0x1000, info_ok = True, entry_ok = True, ptrs_ok = True,
                    grow_ok = True, scratch_ok = True\<rparr> 16 7 registry_start)) 0x2000
   = None"
  by (simp add: registry_defs drop_bit_eq_div)

subsubsection \<open>Releasing a group (\<open>pfree_tag\<close>)\<close>

text \<open>
  Claim C1, as stated, promises that after \<open>releaseGroup(t)\<close> every address allocated under
  \<open>t\<close> is unknown and \<open>groupSize(t)\<close> is 0. \<open>pfree_tag\<close> first copies the group's pointer
  list into a temporary array and returns at once when that array cannot be obtained
  (\<open>if (!ptrs) return;\<close>). In that case nothing is released: the block at \<open>0x1000\<close>
  allocated under tag 7 still has its record and the group still counts its 16 bytes.
\<close>

theorem pfree_tag_scratch_failure:
  "find_alloc_info
     (pfree_tag \<lparr>user_block = 0, info_ok = True, entry_ok = True, ptrs_ok = True,
                 grow_ok = True, scratch_ok = False\<rparr> 7
        (snd (pmalloc \<lparr>user_block = 0x1000, info_ok = True, entry_ok = True, ptrs_ok = True,
                       grow_ok = True, scratch_ok = True\<rparr> 16 7 registry_start)))
     0x1000
   = Some \<lparr>info_ptr = 0x1000, info_size = 16, info_tag = 7\<rparr>
   \<and> fst (ptag_size 7
       (pfree_tag \<lparr>user_block = 0, info_ok = True, entry_ok = True, ptrs_ok = True,
                   grow_ok = True, scratch_ok = False\<rparr> 7
          (snd (pmalloc \<lparr>user_block = 0x1000, info_ok = True, entry_ok = True, ptrs_ok = True,
                         grow_ok = True, scratch_ok = True\<rparr> 16 7 registry_start)))) = 16"
  by (simp add: registry_defs drop_bit_eq_div)

text \<open>
  Claim C1, amended: in a registry whose records and tag groups agree, and provided the
  temporary array of \<open>pfree_tag\<close> can be obtained, for every tag \<open>t\<close> and every address
  \<open>a\<close> with a live record under \<open>t\<close>, after \<open>pfree_tag t\<close> the lookup of \<open>a\<close> finds no
  record and \<open>ptag_size t\<close> returns 0; records and groups still agree afterwards.
\<close>

theorem pfree_tag_releases_group:
  assumes "registry_full st" and "find_alloc_info st a = Some info" and "info_tag info = t"
    and "scratch_ok env"
  shows "find_alloc_info (pfree_tag env t st) a = None
         \<and> fst (ptag_size t (pfree_tag env t st)) = 0
         \<and> registry_full (pfree_tag env t st)"
proof -
  from assms(1) have inv: "registry_inv st" and gc: "groups_complete st"
    by (simp_all add: registry_full_def)
  from inv have ini: "g_allocator_initialized st" by (simp add: registry_inv_def)
  from groups_complete_member [OF gc assms(2)] assms(3) obtain entry where
    e: "find_tag_entry st t = Some entry" and a: "a \<in> set (entry_ptrs entry)"
    by auto
  from a have ne: "length (entry_ptrs entry) \<noteq> 0" by auto
  let ?st' = "foldl free_tagged st (entry_ptrs entry)"
  have st': "pfree_tag env t st = ?st'"
    using ini e ne assms(4) by (simp add: pfree_tag_def)
  note fl = foldl_free_tagged [OF inv, of "entry_ptrs entry"]
  from fl(1) have ini': "g_allocator_initialized ?st'" by (simp add: registry_inv_def)
  have gone: "find_alloc_info ?st' a = None" using a by (simp add: fl(2))
  have size0: "fst (ptag_size t ?st') = 0"
  proof (cases "find_tag_entry ?st' t")
    case None
    with ini' show ?thesis by (simp add: ptag_size_def)
  next
    case (Some entry')
    from foldl_free_tagged_groups [OF inv Some] e
    have "set (entry_ptrs entry') \<subseteq> set (entry_ptrs entry)" by simp
    then have "\<forall>p \<in> set (entry_ptrs entry'). find_alloc_info ?st' p = None"
      by (auto simp: fl(2))
    from ptag_sum_none [OF this] Some ini' show ?thesis by (simp add: ptag_size_def)
  qed
  from gone size0 foldl_free_tagged_full [OF assms(1)] show ?thesis by (simp add: st')
qed

theorem pfree_tag_releases_group_witness:
  "registry_full
     (snd (pmalloc \<lparr>user_block = 0x1000, info_ok = True, entry_ok = True, ptrs_ok = True,
                    grow_ok = True, scratch_ok = True\<rparr> 16 7 registry_start))
   \<and> find_alloc_info
       (snd (pmalloc \<lparr>user_block = 0x1000, info_ok = True, entry_ok = True, ptrs_ok = True,
                      grow_ok = True, scratch_ok = True\<rparr> 16 7 registry_start)) 0x1000
     = Some \<lparr>info_ptr = 0x1000, info_size = 16, info_tag = 7\<rparr>
   \<and> find_alloc_info
       (pfree_tag \<lparr>user_block = 0, info_ok = True, entry_ok = True, ptrs_ok = True,
                   grow_ok = True, scratch_ok = True\<rparr> 7
          (snd (pmalloc \<lparr>user_block = 0x1000, info_ok = True, entry_ok = True,
                         ptrs_ok = True, grow_ok = True, scratch_ok = True\<rparr> 16 7
                  registry_start))) 0x1000
     = None
   \<and> fst (ptag_size 7
       (pfree_tag \<lparr>user_block = 0, info_ok = True, entry_ok = True, ptrs_ok = True,
                   grow_ok = True, scratch_ok = True\<rparr> 7
          (snd (pmalloc \<lparr>user_block = 0x1000, info_ok = True, entry_ok = True,
                         ptrs_ok = True, grow_ok = True, scratch_ok = True\<rparr> 16 7
                  registry_start)))) = 0"
  using pfree_tag_releases_group [OF example_registry_full example_registry_lookup,
      of 7 "\<lparr>user_block = 0, info_ok = True, entry_ok = True, ptrs_ok = True,
                   grow_ok = True, scratch_ok = True\<rparr>"]
    example_registry_full example_registry_lookup
  by simp

subsubsection \<open>Releasing one address, then its group\<close>

text \<open>
  Claim C2: for an address \<open>a\<close> with a live record under tag \<open>t\<close>, \<open>pfree a\<close> does not
  fail; afterwards \<open>a\<close> has no record and is a member of no tag group, it has been handed
  to \<open>free\<close> once and the allocation count has dropped by one. A following \<open>pfree_tag t\<close>
  frees a list of addresses that are pairwise different and does not contain \<open>a\<close>, and lowers
  the allocation count by exactly the length of that list: \<open>a\<close> is neither freed nor counted a
  second time. This holds whatever the library answers to \<open>pfree_tag\<close>.
\<close>

theorem release_then_release_group:
  assumes "registry_inv st" and "find_alloc_info st a = Some info" and "info_tag info = t"
  shows "case pfree a st of
           Inl e \<Rightarrow> False
         | Inr st1 \<Rightarrow>
             find_alloc_info st1 a = None
             \<and> (\<forall>t' entry. find_tag_entry st1 t' = Some entry \<longrightarrow> a \<notin> set (entry_ptrs entry))
             \<and> freed st1 = freed st @ [a]
             \<and> g_alloc_count st1 = g_alloc_count st - 1
             \<and> (\<exists>fs. freed (pfree_tag env t st1) = freed st1 @ fs
                    \<and> a \<notin> set fs \<and> distinct fs
                    \<and> g_alloc_count (pfree_tag env t st1)
                        = g_alloc_count st1 - of_nat (length fs))
             \<and> find_alloc_info (pfree_tag env t st1) a = None
             \<and> registry_inv (pfree_tag env t st1)"
proof -
  from assms(1) have ini: "g_allocator_initialized st" and cd: "chains_ok st"
    by (simp_all add: registry_inv_def)
  from find_alloc_info_chain [OF assms(2)] have nz: "a \<noteq> 0" by simp
  let ?st1 = "(snd (unregister_allocation a st))\<lparr>freed := freed (snd (unregister_allocation a st)) @ [a]\<rparr>"
  have pf: "pfree a st = Inr ?st1"
    using ini nz by (simp add: pfree_def unregister_known [OF assms(2)])
  note lk = unregister_lookup [OF cd assms(2)]
  have inv1: "registry_inv ?st1" using unregister_inv [OF assms(1,2)] by simp
  then have ini1: "g_allocator_initialized ?st1" by (simp add: registry_inv_def)
  have gone: "find_alloc_info ?st1 a = None" by (simp add: lk(1))
  have nogroup: "a \<notin> set (entry_ptrs entry)" if "find_tag_entry ?st1 t' = Some entry" for t' entry
  proof
    assume "a \<in> set (entry_ptrs entry)"
    from inv1 have "groups_sound ?st1" by (simp add: registry_inv_def)
    from groups_sound_member [OF this that \<open>a \<in> set (entry_ptrs entry)\<close>] gone
    show False by simp
  qed
  have log: "freed ?st1 = freed st @ [a]" by (simp add: lk(5))
  have cnt: "g_alloc_count ?st1 = g_alloc_count st - 1"
    by (simp add: unregister_count [OF assms(2)])
  have grp: "\<exists>fs. freed (pfree_tag env t ?st1) = freed ?st1 @ fs
                    \<and> a \<notin> set fs \<and> distinct fs
                    \<and> g_alloc_count (pfree_tag env t ?st1)
                        = g_alloc_count ?st1 - of_nat (length fs)"
  proof (cases "find_tag_entry ?st1 t")
    case None
    with ini1 show ?thesis by (simp add: pfree_tag_def)
  next
    case (Some entry)
    from foldl_free_tagged_log [OF inv1, of "entry_ptrs entry"] obtain fs where
      fs: "freed (foldl free_tagged ?st1 (entry_ptrs entry)) = freed ?st1 @ fs"
      "distinct fs" "set fs = {p \<in> set (entry_ptrs entry). find_alloc_info ?st1 p \<noteq> None}"
      "g_alloc_count (foldl free_tagged ?st1 (entry_ptrs entry))
         = g_alloc_count ?st1 - of_nat (length fs)"
      by blast
    from fs(3) gone have "a \<notin> set fs" by auto
    with fs Some ini1 show ?thesis
      by (cases "length (entry_ptrs entry) = 0"; cases "scratch_ok env")
         (auto simp: pfree_tag_def)
  qed
  have gone2: "find_alloc_info (pfree_tag env t ?st1) a = None
      \<and> registry_inv (pfree_tag env t ?st1)"
    using ini1 inv1 gone foldl_free_tagged [OF inv1]
    by (auto simp: pfree_tag_def split: option.split)
  from gone nogroup log cnt grp gone2 show ?thesis
    unfolding pf by (simp del: find_alloc_info_freed find_tag_entry_freed)
qed

theorem release_then_release_group_witness:
  "registry_inv
     (snd (pmalloc \<lparr>user_block = 0x1000, info_ok = True, entry_ok = True, ptrs_ok = True,
                    grow_ok = True, scratch_ok = True\<rparr> 16 7 registry_start))
   \<and> find_alloc_info
       (snd (pmalloc \<lparr>user_block = 0x1000, info_ok = True, entry_ok = True, ptrs_ok = True,
                      grow_ok = True, scratch_ok = True\<rparr> 16 7 registry_start)) 0x1000
     = Some \<lparr>info_ptr = 0x1000, info_size = 16, info_tag = 7\<rparr>
   \<and> (\<exists>st1. pfree 0x1000
         (snd (pmalloc \<lparr>user_block = 0x1000, info_ok = True, entry_ok = True,
                        ptrs_ok = True, grow_ok = True, scratch_ok = True\<rparr> 16 7
                 registry_start)) = Inr st1
        \<and> find_alloc_info st1 0x1000 = None
        \<and> freed st1 = [0x1000]
        \<and> (\<exists>fs. freed (pfree_tag \<lparr>user_block = 0, info_ok = True, entry_ok = True,
                      ptrs_ok = True, grow_ok = True, scratch_ok = True\<rparr> 7 st1)
                    = freed st1 @ fs \<and> 0x1000 \<notin> set fs))"
proof -
  let ?st = "snd (pmalloc \<lparr>user_block = 0x1000, info_ok = True, entry_ok = True,
                        ptrs_ok = True, grow_ok = True, scratch_ok = True\<rparr> 16 7
                 registry_start)"
  let ?env = "\<lparr>user_block = 0, info_ok = True, entry_ok = True,
                      ptrs_ok = True, grow_ok = True, scratch_ok = True\<rparr>"
  have inv: "registry_inv ?st" using example_registry_full by (simp add: registry_full_def)
  have fr: "freed ?st = []" by (simp add: registry_defs drop_bit_eq_div)
  from release_then_release_group [OF inv example_registry_lookup, of 7 ?env]
  have "\<exists>st1. pfree 0x1000 ?st = Inr st1
        \<and> find_alloc_info st1 0x1000 = None
        \<and> freed st1 = [0x1000]
        \<and> (\<exists>fs. freed (pfree_tag ?env 7 st1) = freed st1 @ fs \<and> 0x1000 \<notin> set fs)"
    by (cases "pfree 0x1000 ?st") (auto simp: fr)
  with inv example_registry_lookup show ?thesis by blast
qed

subsubsection \<open>Reallocation (\<open>prealloc\<close>)\<close>

text \<open>
  Claim C3, as stated, promises that after a relocating \<open>reallocate\<close> the new address has
  a record and is a member of the new tag's group. \<open>prealloc\<close> registers the new address
  with \<open>register_allocation\<close>, which returns without doing anything when the record itself
  cannot be obtained (\<open>if (!info) return;\<close>). Then the block at \<open>0x1000\<close> that moved to
  \<open>0x2000\<close> under the new tag 9 has no record at all, and tag 9 has no group.
\<close>

theorem prealloc_bookkeeping_failure:
  "\<not> isl (prealloc \<lparr>user_block = 0x2000, info_ok = False, entry_ok = True, ptrs_ok = True,
                      grow_ok = True, scratch_ok = True\<rparr> 0x1000 32 9
             (snd (pmalloc \<lparr>user_block = 0x1000, info_ok = True, entry_ok = True,
                            ptrs_ok = True, grow_ok = True, scratch_ok = True\<rparr> 16 7
                     registry_start)))
   \<and> fst (projr (prealloc \<lparr>user_block = 0x2000, info_ok = False, entry_ok = True,
                     ptrs_ok = True, grow_ok = True, scratch_ok = True\<rparr> 0x1000 32 9
             (snd (pmalloc \<lparr>user_block = 0x1000, info_ok = True, entry_ok = True,
                            ptrs_ok = True, grow_ok = True, scratch_ok = True\<rparr> 16 7
                     registry_start)))) = 0x2000
   \<and> find_alloc_info
       (snd (projr (prealloc \<lparr>user_block = 0x2000, info_ok = False, entry_ok = True,
                      ptrs_ok = True, grow_ok = True, scratch_ok = True\<rparr> 0x1000 32 9
              (snd (pmalloc \<lparr>user_block = 0x1000, info_ok = True, entry_ok = True,
                             ptrs_ok = True, grow_ok = True, scratch_ok = True\<rparr> 16 7
                      registry_start))))) 0x2000 = None
   \<and> find_tag_entry
       (snd (projr (prealloc \<lparr>user_block = 0x2000, info_ok = False, entry_ok = True,
                      ptrs_ok = True, grow_ok = True, scratch_ok = True\<rparr> 0x1000 32 9
              (snd (pmalloc \<lparr>user_block = 0x1000, info_ok = True, entry_ok = True,
                             ptrs_ok = True, grow_ok = True, scratch_ok = True\<rparr> 16 7
                      registry_start))))) 9 = None"
  by (simp add: registry_defs drop_bit_eq_div)

text \<open>
  Claim C3, amended: for an address \<open>a\<close> with a live record, and provided the library
  grants the registry's own requests during the call (the record, the tag entry, its
  pointer list and the growth of that list) and \<open>realloc\<close> returns a block that is not
  \<open>NULL\<close> and, when it differs from \<open>a\<close>, is not the address of a live record:
  \<open>prealloc a sz t\<close> does not fail and returns the block \<open>a'\<close> that \<open>realloc\<close> returned;
  \<open>a'\<close> has exactly one record, with size \<open>sz\<close> and tag \<open>t\<close>, and is a member of no group
  but that of \<open>t\<close>. When the block was relocated (\<open>a' \<noteq> a\<close>), the old address has no
  record and is in no group, and \<open>a'\<close> is a member of the group of \<open>t\<close>. When it was not
  and the tag changes, \<open>a\<close> is a member of the group of \<open>t\<close> and no longer of the group of
  its old tag; when the tag stays, no group changes. The records of all other addresses
  are as before. The state before the call is any state the registry can be in
  (\<open>registry_inv\<close>, which the call preserves); nothing is assumed about earlier
  bookkeeping requests.
\<close>

theorem prealloc_moves_record:
  assumes "registry_inv st" and "find_alloc_info st a = Some info"
    and "info_ok env" and "entry_ok env" and "ptrs_ok env" and "grow_ok env"
    and "user_block env \<noteq> 0"
    and "user_block env \<noteq> a \<Longrightarrow> find_alloc_info st (user_block env) = None"
  shows "case prealloc env a sz t st of
           Inl e \<Rightarrow> False
         | Inr (a', st') \<Rightarrow>
             a' = user_block env
             \<and> find_alloc_info st' a' = Some \<lparr>info_ptr = a', info_size = sz, info_tag = t\<rparr>
             \<and> record_count st' a' = 1
             \<and> (\<forall>t' entry. find_tag_entry st' t' = Some entry \<and> a' \<in> set (entry_ptrs entry)
                   \<longrightarrow> t' = t)
             \<and> (a' \<noteq> a \<longrightarrow>
                   find_alloc_info st' a = None
                   \<and> record_count st' a = 0
                   \<and> (\<forall>t' entry. find_tag_entry st' t' = Some entry
                         \<longrightarrow> a \<notin> set (entry_ptrs entry))
                   \<and> (\<exists>entry. find_tag_entry st' t = Some entry
                         \<and> a' \<in> set (entry_ptrs entry)))
             \<and> (a' = a \<and> t \<noteq> info_tag info \<longrightarrow>
                   (\<exists>entry. find_tag_entry st' t = Some entry \<and> a \<in> set (entry_ptrs entry))
                   \<and> (\<forall>entry. find_tag_entry st' (info_tag info) = Some entry
                         \<longrightarrow> a \<notin> set (entry_ptrs entry)))
             \<and> (a' = a \<and> t = info_tag info \<longrightarrow>
                   (\<forall>t'. find_tag_entry st' t' = find_tag_entry st t'))
             \<and> (\<forall>q. q \<noteq> a \<and> q \<noteq> a' \<longrightarrow> find_alloc_info st' q = find_alloc_info st q)
             \<and> registry_inv st'"
proof -
  from prealloc_outcome [OF assms, of sz t] obtain st' where
    pr: "prealloc env a sz t st = Inr (user_block env, st')"
    and inv: "registry_inv st'"
    and new: "find_alloc_info st' (user_block env)
               = Some \<lparr>info_ptr = user_block env, info_size = sz, info_tag = t\<rparr>"
    and frame: "\<forall>q. q \<noteq> a \<and> q \<noteq> user_block env
                  \<longrightarrow> find_alloc_info st' q = find_alloc_info st q"
    and old: "user_block env \<noteq> a \<longrightarrow> find_alloc_info st' a = None"
    and member: "user_block env \<noteq> a \<or> t \<noteq> info_tag info \<longrightarrow>
                 (\<exists>entry. find_tag_entry st' t = Some entry
                    \<and> user_block env \<in> set (entry_ptrs entry))"
    and same: "user_block env = a \<and> t = info_tag info \<longrightarrow>
                 (\<forall>t'. find_tag_entry st' t' = find_tag_entry st t')"
    by blast
  from inv have ini: "g_allocator_initialized st'" and cok: "chains_ok st'"
    and gs: "groups_sound st'"
    by (simp_all add: registry_inv_def)
  note rc = record_count_lookup [OF cok ini]
  have only: "t' = t"
    if "find_tag_entry st' t' = Some entry \<and> user_block env \<in> set (entry_ptrs entry)"
    for t' entry
    using groups_sound_member [OF gs conjunct1 [OF that] conjunct2 [OF that]] new by auto
  have nogroup: "a \<notin> set (entry_ptrs entry)"
    if "user_block env \<noteq> a" and "find_tag_entry st' t' = Some entry" for t' entry
  proof
    assume "a \<in> set (entry_ptrs entry)"
    from groups_sound_member [OF gs that(2) this] old that(1) show False by simp
  qed
  have left: "a \<notin> set (entry_ptrs entry)"
    if "user_block env = a" and "t \<noteq> info_tag info"
      and "find_tag_entry st' (info_tag info) = Some entry" for entry
  proof
    assume "a \<in> set (entry_ptrs entry)"
    with that(1,3) only [of "info_tag info" entry] that(2) show False by simp
  qed
  have c1: "record_count st' (user_block env) = 1" using new by (simp add: rc)
  have c2: "user_block env \<noteq> a \<longrightarrow> record_count st' a = 0" using old by (simp add: rc)
  from new old member same frame only nogroup left inv c1 c2 show ?thesis
    unfolding pr by (simp only: sum.case prod.case) blast
qed

theorem prealloc_moves_record_witness:
  "registry_inv
     (snd (pmalloc \<lparr>user_block = 0x1000, info_ok = True, entry_ok = True, ptrs_ok = True,
                    grow_ok = True, scratch_ok = True\<rparr> 16 7 registry_start))
   \<and> find_alloc_info
       (snd (pmalloc \<lparr>user_block = 0x1000, info_ok = True, entry_ok = True, ptrs_ok = True,
                      grow_ok = True, scratch_ok = True\<rparr> 16 7 registry_start)) 0x1000
     = Some \<lparr>info_ptr = 0x1000, info_size = 16, info_tag = 7\<rparr>
   \<and> find_alloc_info
       (snd (pmalloc \<lparr>user_block = 0x1000, info_ok = True, entry_ok = True, ptrs_ok = True,
                      grow_ok = True, scratch_ok = True\<rparr> 16 7 registry_start)) 0x2000
     = None
   \<and> (\<exists>st'. prealloc \<lparr>user_block = 0x2000, info_ok = True, entry_ok = True,
                 ptrs_ok = True, grow_ok = True, scratch_ok = True\<rparr> 0x1000 32 9
          (snd (pmalloc \<lparr>user_block = 0x1000, info_ok = True, entry_ok = True,
                         ptrs_ok = True, grow_ok = True, scratch_ok = True\<rparr> 16 7
                  registry_start)) = Inr (0x2000, st')
        \<and> find_alloc_info st' 0x2000
            = Some \<lparr>info_ptr = 0x2000, info_size = 32, info_tag = 9\<rparr>
        \<and> record_count st' 0x2000 = 1
        \<and> find_alloc_info st' 0x1000 = None
        \<and> record_count st' 0x1000 = 0
        \<and> (\<exists>entry. find_tag_entry st' 9 = Some entry \<and> 0x2000 \<in> set (entry_ptrs entry))
        \<and> registry_inv st')
   \<and> (\<exists>st'. prealloc \<lparr>user_block = 0x1000, info_ok = True, entry_ok = True,
                 ptrs_ok = True, grow_ok = True, scratch_ok = True\<rparr> 0x1000 32 9
          (snd (pmalloc \<lparr>user_block = 0x1000, info_ok = True, entry_ok = True,
                         ptrs_ok = True, grow_ok = True, scratch_ok = True\<rparr> 16 7
                  registry_start)) = Inr (0x1000, st')
        \<and> find_alloc_info st' 0x1000
            = Some \<lparr>info_ptr = 0x1000, info_size = 32, info_tag = 9\<rparr>
        \<and> record_count st' 0x1000 = 1
        \<and> (\<exists>entry. find_tag_entry st' 9 = Some entry \<and> 0x1000 \<in> set (entry_ptrs entry))
        \<and> (\<exists>entry. find_tag_entry st' 7 = Some entry \<and> 0x1000 \<notin> set (entry_ptrs entry))
        \<and> registry_inv st')"
proof -
  let ?st = "snd (pmalloc \<lparr>user_block = 0x1000, info_ok = True, entry_ok = True,
                        ptrs_ok = True, grow_ok = True, scratch_ok = True\<rparr> 16 7
                 registry_start)"
  let ?moved = "\<lparr>user_block = 0x2000, info_ok = True, entry_ok = True,
                 ptrs_ok = True, grow_ok = True, scratch_ok = True\<rparr>"
  let ?stays = "\<lparr>user_block = 0x1000, info_ok = True, entry_ok = True,
                 ptrs_ok = True, grow_ok = True, scratch_ok = True\<rparr>"
  have inv: "registry_inv ?st" using example_registry_full by (simp add: registry_full_def)
  have fresh: "find_alloc_info ?st (user_block ?moved) = None"
    using example_registry_fresh by simp
  from prealloc_moves_record [OF inv example_registry_lookup, of ?moved 32 9] fresh
  have moved: "\<exists>st'. prealloc ?moved 0x1000 32 9 ?st = Inr (0x2000, st')
        \<and> find_alloc_info st' 0x2000
            = Some \<lparr>info_ptr = 0x2000, info_size = 32, info_tag = 9\<rparr>
        \<and> record_count st' 0x2000 = 1
        \<and> find_alloc_info st' 0x1000 = None
        \<and> record_count st' 0x1000 = 0
        \<and> (\<exists>entry. find_tag_entry st' 9 = Some entry \<and> 0x2000 \<in> set (entry_ptrs entry))
        \<and> registry_inv st'"
    by (cases "prealloc ?moved 0x1000 32 9 ?st") auto
  have old_group: "\<exists>entry. find_tag_entry st' 7 = Some entry" 
    if "prealloc ?stays 0x1000 32 9 ?st = Inr (0x1000, st')" for st'
  proof -
    from that have "st' = snd (projr (prealloc ?stays 0x1000 32 9 ?st))" by simp
    then show ?thesis by (simp add: registry_defs drop_bit_eq_div)
  qed
  from prealloc_moves_record [OF inv example_registry_lookup, of ?stays 32 9]
  have stays: "\<exists>st'. prealloc ?stays 0x1000 32 9 ?st = Inr (0x1000, st')
        \<and> find_alloc_info st' 0x1000
            = Some \<lparr>info_ptr = 0x1000, info_size = 32, info_tag = 9\<rparr>
        \<and> record_count st' 0x1000 = 1
        \<and> (\<exists>entry. find_tag_entry st' 9 = Some entry \<and> 0x1000 \<in> set (entry_ptrs entry))
        \<and> (\<exists>entry. find_tag_entry st' 7 = Some entry \<and> 0x1000 \<notin> set (entry_ptrs entry))
        \<and> registry_inv st'"
    using old_group by (cases "prealloc ?stays 0x1000 32 9 ?st") auto
  from inv example_registry_lookup example_registry_fresh moved stays
  show ?thesis by blast
qed

end
